theory Spec2Isabelle
  imports Main "HOL-Library.Word" "HOL-Library.Multiset"
begin

section \<open>Data model of \<open>proprietary_ble.c\<close>\<close>

text \<open>
  Pointers. Every pointer the program handles is either \<open>NULL\<close> or the address of one of
  the blocks of the arena \<open>device_pool\<close>. Block \<open>i\<close> starts at
  \<open>pool + sizeof(fixedpool_t) + i * (sizeof(blockheader_t) + blocksize)\<close>; its header is a
  \<open>blockheader_t\<close> and the payload handed to the caller (\<open>GET_MEM_FROM_BLOCK\<close>) follows the
  header. A pointer is therefore modelled by the index of its block: \<open>None\<close> is \<open>NULL\<close>,
  \<open>Some i\<close> is block \<open>i\<close> (as a \<open>blockheader_t *\<close>) or its payload (as a \<open>device_t *\<close>);
  \<open>GET_BLOCK_FROM_MEM\<close> and \<open>GET_MEM_FROM_BLOCK\<close> are the identity on indices.
\<close>

type_synonym ptr = "nat option"

record pair_adv_data_t =
  device_id :: "32 word"
  device_name :: "8 word list"
  device_data :: "8 word list"
  rf_address :: "32 word"
  rssi :: "8 word"

record device_t =
  adv :: pair_adv_data_t
  discovery_time :: "64 word"
  "next" :: ptr
  prev :: ptr

text \<open>
  The arena: the \<open>fixedpool_t\<close> header (\<open>nextfree\<close> is the top of the stack of free
  blocks) and, for every block \<open>i\<close>, the \<open>nextfree\<close> field of its \<open>blockheader_t\<close>
  (\<open>blocks p i\<close>).
\<close>

record fixedpool_t =
  nextfree :: ptr
  blocksize :: "64 word"
  blockcount :: "32 word"
  blocks :: "nat \<Rightarrow> ptr"

text \<open>What the program writes to standard output.\<close>

datatype event =
    NullFreeWarning
  | DoubleFreeWarning nat ptr
  | LargeCountWarning int
  | TimeHeading
  | RssiHeading
  | Row "64 word" "32 word" "8 word"

text \<open>A dereference of \<open>NULL\<close>.\<close>

datatype fault = NullDeref

text \<open>
  The globals: the arena, the payloads of its blocks (\<open>devices s i\<close> is the \<open>device_t\<close>
  stored in block \<open>i\<close>), and the queue's \<open>device_count\<close>, \<open>head\<close> and \<open>tail\<close>.
\<close>

record state =
  device_pool :: fixedpool_t
  devices :: "nat \<Rightarrow> device_t"
  device_count :: int
  head :: ptr
  tail :: ptr

section \<open>Device memory pool\<close>

text \<open>
  The loop of \<open>pool_init\<close>: \<open>for (i = blockcount-1; i >= 0; i--)\<close> with \<open>int i\<close>. It
  returns \<open>cur\<close> and the block headers.
\<close>

function pool_init_loop :: "int \<Rightarrow> ptr \<Rightarrow> ptr \<Rightarrow> (nat \<Rightarrow> ptr) \<Rightarrow> ptr \<times> (nat \<Rightarrow> ptr)" where
  "pool_init_loop i prv cur blks =
     (if i \<ge> 0
      then pool_init_loop (i - 1) (Some (nat i)) (Some (nat i)) (blks(nat i := prv))
      else (cur, blks))"
  by pat_completeness auto
termination
  by (relation "measure (\<lambda>(i, prv, cur, blks). nat (i + 1))") auto

text \<open>
  \<open>blockcount\<close> is a \<open>uint32_t\<close>; \<open>blockcount-1\<close> is computed in 32 bits without sign and
  stored in the \<open>int i\<close>, which reads it as two's complement.
\<close>

definition pool_init :: "fixedpool_t \<Rightarrow> 64 word \<Rightarrow> 32 word \<Rightarrow> fixedpool_t" where
  "pool_init pool bsize bcount =
     (let (cur, blks) = pool_init_loop (sint (bcount - 1)) None None (blocks pool)
      in \<lparr>nextfree = cur, blocksize = bsize, blockcount = bcount, blocks = blks\<rparr>)"

definition pool_alloc :: "fixedpool_t \<Rightarrow> 64 word \<Rightarrow> ptr \<times> fixedpool_t" where
  "pool_alloc pool sz =
     (case nextfree pool of
        Some b \<Rightarrow> (Some b, pool\<lparr>nextfree := blocks pool b, blocks := (blocks pool)(b := None)\<rparr>)
      | None \<Rightarrow> (None, pool))"

definition pool_free :: "fixedpool_t \<Rightarrow> ptr \<Rightarrow> event list \<times> fixedpool_t" where
  "pool_free pool p =
     (case p of
        None \<Rightarrow> ([NullFreeWarning], pool)
      | Some b \<Rightarrow>
          (if blocks pool b \<noteq> None then [DoubleFreeWarning b (blocks pool b)] else [],
           pool\<lparr>blocks := (blocks pool)(b := nextfree pool), nextfree := Some b\<rparr>))"

section \<open>Device queue\<close>

definition set_next :: "nat \<Rightarrow> ptr \<Rightarrow> state \<Rightarrow> state" where
  "set_next n v s = s\<lparr>devices := (devices s)(n := (devices s n)\<lparr>next := v\<rparr>)\<rparr>"

definition set_prev :: "nat \<Rightarrow> ptr \<Rightarrow> state \<Rightarrow> state" where
  "set_prev n v s = s\<lparr>devices := (devices s)(n := (devices s n)\<lparr>prev := v\<rparr>)\<rparr>"

text \<open>
  The loop of \<open>find_duplicate\<close> follows \<open>next\<close> from \<open>head\<close>; on a cyclic chain without the
  identifier it does not return, which is the value \<open>None\<close> here.
\<close>

partial_function (option) find_duplicate_loop ::
  "(nat \<Rightarrow> device_t) \<Rightarrow> 32 word \<Rightarrow> ptr \<Rightarrow> ptr option" where
  "find_duplicate_loop devs did cur =
     (case cur of
        None \<Rightarrow> Some None
      | Some n \<Rightarrow>
          if device_id (adv (devs n)) = did then Some (Some n)
          else find_duplicate_loop devs did (next (devs n)))"

declare find_duplicate_loop.simps [code]

definition find_duplicate :: "state \<Rightarrow> pair_adv_data_t \<Rightarrow> ptr option" where
  "find_duplicate s data = find_duplicate_loop (devices s) (device_id data) (head s)"

definition queue_remove :: "ptr \<Rightarrow> state \<Rightarrow> state" where
  "queue_remove node s =
     (case node of
        None \<Rightarrow> s
      | Some n \<Rightarrow>
          let s = (if head s = Some n then s\<lparr>head := next (devices s n)\<rparr> else s);
              s = (if tail s = Some n then s\<lparr>tail := prev (devices s n)\<rparr> else s);
              s = (case prev (devices s n) of
                     None \<Rightarrow> s
                   | Some p \<Rightarrow> set_next p (next (devices s n)) s);
              s = (case next (devices s n) of
                     None \<Rightarrow> s
                   | Some q \<Rightarrow> set_prev q (prev (devices s n)) s);
              s = set_prev n None s;
              s = set_next n None s
          in s\<lparr>device_count := device_count s - 1\<rparr>)"

definition queue_push :: "ptr \<Rightarrow> state \<Rightarrow> state" where
  "queue_push node s =
     (case node of
        None \<Rightarrow> s
      | Some n \<Rightarrow>
          let s = set_prev n None s;
              s = set_next n (head s) s;
              s = (case head s of None \<Rightarrow> s | Some h \<Rightarrow> set_prev h (Some n) s);
              s = s\<lparr>head := Some n\<rparr>;
              s = (if tail s = None then s\<lparr>tail := Some n\<rparr> else s)
          in s\<lparr>device_count := device_count s + 1\<rparr>)"

definition queue_pop :: "state \<Rightarrow> ptr \<times> state" where
  "queue_pop s =
     (case tail s of
        None \<Rightarrow> (None, s)
      | Some n \<Rightarrow>
          let s = s\<lparr>tail := prev (devices s n)\<rparr>;
              s = (case tail s of None \<Rightarrow> s | Some t \<Rightarrow> set_next t None s);
              s = (if head s = Some n then s\<lparr>head := None\<rparr> else s)
          in (Some n, s\<lparr>device_count := device_count s - 1\<rparr>))"

text \<open>
  \<open>queue_clear\<close>, \<open>while (head != NULL) pool_free(device_pool, queue_pop())\<close>. It returns
  the warnings of \<open>pool_free\<close> and the new state.
\<close>

partial_function (option) queue_clear_loop :: "event list \<Rightarrow> state \<Rightarrow> (event list \<times> state) option" where
  "queue_clear_loop out s =
     (if head s \<noteq> None
      then (let (node, s1) = queue_pop s;
                (w, pool) = pool_free (device_pool s1) node
            in queue_clear_loop (out @ w) (s1\<lparr>device_pool := pool\<rparr>))
      else Some (out, s))"

declare queue_clear_loop.simps [code]

definition queue_clear :: "state \<Rightarrow> (event list \<times> state) option" where
  "queue_clear s = queue_clear_loop [] s"

section \<open>Device discovery\<close>

text \<open>
  The guard loop of \<open>on_discovery\<close>, \<open>while (device_count > 32)\<close>. When the queue is empty
  \<open>queue_pop\<close> leaves \<open>device_count\<close> as it is and the loop does not end (\<open>None\<close>).
\<close>

partial_function (option) large_count_loop :: "event list \<Rightarrow> state \<Rightarrow> (event list \<times> state) option" where
  "large_count_loop out s =
     (if device_count s > 32
      then (let (node, s1) = queue_pop s;
                (w, pool) = pool_free (device_pool s1) node
            in large_count_loop (out @ [LargeCountWarning (device_count s)] @ w)
                 (s1\<lparr>device_pool := pool\<rparr>))
      else Some (out, s))"

declare large_count_loop.simps [code]

text \<open>
  \<open>memcpy(new, data, sizeof(pair_adv_data_t))\<close> overwrites the member \<open>adv\<close>, the first member
  of \<open>device_t\<close>, and nothing else.
\<close>

definition memcpy_adv :: "nat \<Rightarrow> pair_adv_data_t \<Rightarrow> state \<Rightarrow> state" where
  "memcpy_adv n data s = s\<lparr>devices := (devices s)(n := (devices s n)\<lparr>adv := data\<rparr>)\<rparr>"

definition set_rssi :: "nat \<Rightarrow> 8 word \<Rightarrow> state \<Rightarrow> state" where
  "set_rssi n v s =
     s\<lparr>devices := (devices s)(n := (devices s n)\<lparr>adv := (adv (devices s n))\<lparr>rssi := v\<rparr>\<rparr>)\<rparr>"

definition set_discovery_time :: "nat \<Rightarrow> 64 word \<Rightarrow> state \<Rightarrow> state" where
  "set_discovery_time n t s =
     s\<lparr>devices := (devices s)(n := (devices s n)\<lparr>discovery_time := t\<rparr>)\<rparr>"

text \<open>\<open>sizeof(device_t)\<close> on the LP64 target the program is built for.\<close>

definition sizeof_device_t :: "64 word" where
  "sizeof_device_t = 120"

text \<open>
  \<open>on_discovery\<close>. The value of \<open>systime_ms_get()\<close> is the parameter \<open>timestamp\<close>. The
  result is \<open>None\<close> when a loop does not end; otherwise the warnings printed and either the
  new state or the fault of writing through a \<open>NULL\<close> \<open>new\<close>.
\<close>

definition on_discovery ::
  "pair_adv_data_t \<Rightarrow> 64 word \<Rightarrow> state \<Rightarrow> (event list \<times> (fault + state)) option" where
  "on_discovery data timestamp s =
     (case find_duplicate s data of
        None \<Rightarrow> None
      | Some (Some d) \<Rightarrow>
          (let s = queue_remove (Some d) s;
               s = queue_push (Some d) s;
               s = set_rssi d (rssi data) s;
               s = set_discovery_time d timestamp s
           in Some ([], Inr s))
      | Some None \<Rightarrow>
          (case large_count_loop [] s of
             None \<Rightarrow> None
           | Some (out, s) \<Rightarrow>
               (let (new, s) =
                      (if device_count s = 32 then queue_pop s
                       else (let (p, pool) = pool_alloc (device_pool s) sizeof_device_t
                             in (p, s\<lparr>device_pool := pool\<rparr>)))
                in case new of
                     None \<Rightarrow> Some (out, Inl NullDeref)
                   | Some n \<Rightarrow>
                       (let s = memcpy_adv n data s;
                            s = set_discovery_time n timestamp s;
                            s = queue_push (Some n) s
                        in Some (out, Inr s)))))"

section \<open>Printing\<close>

partial_function (option) print_time_loop ::
  "(nat \<Rightarrow> device_t) \<Rightarrow> event list \<Rightarrow> ptr \<Rightarrow> event list option" where
  "print_time_loop devs out cur =
     (case cur of
        None \<Rightarrow> Some out
      | Some n \<Rightarrow>
          print_time_loop devs
            (out @ [Row (discovery_time (devs n)) (device_id (adv (devs n))) (rssi (adv (devs n)))])
            (next (devs n)))"

declare print_time_loop.simps [code]

definition print_queue_by_time :: "state \<Rightarrow> event list option" where
  "print_queue_by_time s = print_time_loop (devices s) [TimeHeading] (head s)"

text \<open>
  The inner loop of the insertion sort,
  \<open>while (j > 0 && sorted[j]->adv.rssi > sorted[j-1]->adv.rssi)\<close>, on the local array
  \<open>sorted\<close> of 32 pointers (\<open>sorted_a\<close> below: \<open>sorted\<close> is a constant of the library). The
  array is a list of length 32 and every index used is below 32.
\<close>

function rssi_sift :: "(nat \<Rightarrow> device_t) \<Rightarrow> ptr list \<Rightarrow> nat \<Rightarrow> fault + ptr list" where
  "rssi_sift devs sorted_a j =
     (if j > 0
      then (case sorted_a ! j of
              None \<Rightarrow> Inl NullDeref
            | Some a \<Rightarrow>
                (case sorted_a ! (j - 1) of
                   None \<Rightarrow> Inl NullDeref
                 | Some b \<Rightarrow>
                     if rssi (adv (devs a)) > rssi (adv (devs b))
                     then rssi_sift devs (sorted_a[j := Some b, j - 1 := Some a]) (j - 1)
                     else Inr sorted_a))
      else Inr sorted_a)"
  by pat_completeness auto
termination
  by (relation "measure (\<lambda>(devs, sorted_a, j). j)") auto

text \<open>
  The outer loop, over the queue from \<open>head\<close>. It returns the warning printed, if any, the
  array and \<open>next_i\<close>, or the fault of the inner loop.
\<close>

partial_function (option) rssi_sort_loop ::
  "state \<Rightarrow> ptr \<Rightarrow> ptr list \<Rightarrow> nat \<Rightarrow> (event list \<times> (fault + ptr list \<times> nat)) option" where
  "rssi_sort_loop s to_insert sorted_a next_i =
     (case to_insert of
        None \<Rightarrow> Some ([], Inr (sorted_a, next_i))
      | Some n \<Rightarrow>
          if next_i \<ge> 32 then Some ([LargeCountWarning (device_count s)], Inr (sorted_a, next_i))
          else (let r = rssi_sift (devices s) (sorted_a[next_i := Some n]) next_i
                in if isl r then Some ([], Inl (projl r))
                   else rssi_sort_loop s (next (devices s n)) (projr r) (next_i + 1)))"

declare rssi_sort_loop.simps [code]

text \<open>
  The printing loop, \<open>for (j = 0; j < 32; j++)\<close>, which reads through \<open>sorted[j]\<close> for every
  index of the array. It returns what was printed and the fault, if one stopped it.
\<close>

function print_sorted ::
  "(nat \<Rightarrow> device_t) \<Rightarrow> ptr list \<Rightarrow> nat \<Rightarrow> event list \<Rightarrow> event list \<times> fault option" where
  "print_sorted devs sorted_a j out =
     (if j < 32
      then (case sorted_a ! j of
              None \<Rightarrow> (out, Some NullDeref)
            | Some n \<Rightarrow>
                print_sorted devs sorted_a (j + 1)
                  (out @ [Row (discovery_time (devs n)) (device_id (adv (devs n)))
                            (rssi (adv (devs n)))]))
      else (out, None))"
  by pat_completeness auto
termination
  by (relation "measure (\<lambda>(devs, sorted_a, j, out). 32 - j)") auto

definition print_queue_by_rssi :: "state \<Rightarrow> (event list \<times> fault option) option" where
  "print_queue_by_rssi s =
     (case rssi_sort_loop s (head s) (replicate 32 None) 0 of
        None \<Rightarrow> None
      | Some (w, Inl f) \<Rightarrow> Some (w, Some f)
      | Some (w, Inr (sorted_a, next_i)) \<Rightarrow>
          Some (print_sorted (devices s) sorted_a 0 (w @ [RssiHeading])))"

section \<open>Runs of the program\<close>

text \<open>
  The state in which \<open>main\<close> starts to observe devices: the queue's globals as initialised
  (\<open>device_count = 0\<close>, \<open>head = tail = NULL\<close>) and the arena after
  \<open>pool_init(device_pool, sizeof(device_t), 32)\<close>, whatever the arena held before.
\<close>

definition initial_state :: "fixedpool_t \<Rightarrow> (nat \<Rightarrow> device_t) \<Rightarrow> state" where
  "initial_state pool0 mem0 =
     \<lparr>device_pool = pool_init pool0 sizeof_device_t 32, devices = mem0,
      device_count = 0, head = None, tail = None\<rparr>"

text \<open>
  A sequence of advertisement events, each with the time read when it arrives. The run stops
  at the first call that faults or does not return.
\<close>

fun discoveries :: "state \<Rightarrow> (pair_adv_data_t \<times> 64 word) list \<Rightarrow> (fault + state) option" where
  "discoveries s [] = Some (Inr s)"
| "discoveries s ((data, t) # rest) =
     (case on_discovery data t s of
        None \<Rightarrow> None
      | Some (out, Inl f) \<Rightarrow> Some (Inl f)
      | Some (out, Inr s') \<Rightarrow> discoveries s' rest)"

section \<open>The abstraction of the heap\<close>

declare pool_init_loop.simps [simp del] rssi_sift.simps [simp del] print_sorted.simps [simp del]

text \<open>
  \<open>path h p ns q\<close>: following the pointer field \<open>h\<close> from \<open>p\<close> visits exactly the blocks
  \<open>ns\<close>, in this order, and arrives at \<open>q\<close>.
\<close>

primrec path :: "(nat \<Rightarrow> ptr) \<Rightarrow> ptr \<Rightarrow> nat list \<Rightarrow> ptr \<Rightarrow> bool" where
  "path h p [] q = (p = q)"
| "path h p (n # ns) q = (p = Some n \<and> path h (h n) ns q)"

text \<open>The fields of the \<open>device_t\<close> in block \<open>n\<close>: its two links and its payload.\<close>

definition nexts :: "state \<Rightarrow> nat \<Rightarrow> ptr" where
  "nexts s n = next (devices s n)"

definition prevs :: "state \<Rightarrow> nat \<Rightarrow> ptr" where
  "prevs s n = prev (devices s n)"

type_synonym cache_entry = "pair_adv_data_t \<times> 64 word"

definition entry :: "state \<Rightarrow> nat \<Rightarrow> cache_entry" where
  "entry s n = (adv (devices s n), discovery_time (devices s n))"

text \<open>
  The queue holds the blocks \<open>ns\<close>, from \<open>head\<close> (most recently updated) to \<open>tail\<close>: the
  \<open>next\<close> links lead from \<open>head\<close> through \<open>ns\<close> to \<open>NULL\<close>, the \<open>prev\<close> links lead from \<open>tail\<close>
  through \<open>ns\<close> backwards to \<open>NULL\<close>, and no block occurs twice. These are the live entries
  of the cache; a state has at most one such list (lemma \<open>queue_nodes_unique\<close>).
\<close>

definition queue_nodes :: "state \<Rightarrow> nat list \<Rightarrow> bool" where
  "queue_nodes s ns =
     (path (nexts s) (head s) ns None \<and> path (prevs s) (tail s) (rev ns) None \<and> distinct ns)"

definition live_ids :: "state \<Rightarrow> nat list \<Rightarrow> 32 word list" where
  "live_ids s ns = map (\<lambda>n. device_id (adv (devices s n))) ns"

text \<open>The free list of the pool is the stack of blocks \<open>fs\<close>, top first.\<close>

definition free_blocks :: "fixedpool_t \<Rightarrow> nat list \<Rightarrow> bool" where
  "free_blocks pool fs = (path (blocks pool) (nextfree pool) fs None \<and> distinct fs)"

text \<open>
  The invariant of the cache: the queue is \<open>ns\<close>, the free list is \<open>fs\<close>, no block is in both,
  together they are the 32 blocks of the pool, \<open>device_count\<close> counts the queue, and the
  identifiers in the queue are pairwise distinct.
\<close>

definition cache_inv :: "state \<Rightarrow> nat list \<Rightarrow> nat list \<Rightarrow> bool" where
  "cache_inv s ns fs =
     (queue_nodes s ns \<and> free_blocks (device_pool s) fs \<and> set ns \<inter> set fs = {} \<and>
      length ns + length fs = 32 \<and> device_count s = int (length ns) \<and>
      distinct (map (\<lambda>n. device_id (fst (entry s n))) ns))"

text \<open>
  The states that the two branches of \<open>on_discovery\<close> return: the statements of the branch
  taken when \<open>find_duplicate\<close> returns block \<open>d\<close>, and the last three statements of the other
  branch for the block \<open>n\<close> it obtained.
\<close>

definition merged :: "nat \<Rightarrow> pair_adv_data_t \<Rightarrow> 64 word \<Rightarrow> state \<Rightarrow> state" where
  "merged d data t s =
     set_discovery_time d t (set_rssi d (rssi data) (queue_push (Some d) (queue_remove (Some d) s)))"

definition inserted :: "nat \<Rightarrow> pair_adv_data_t \<Rightarrow> 64 word \<Rightarrow> state \<Rightarrow> state" where
  "inserted n data t s = queue_push (Some n) (set_discovery_time n t (memcpy_adv n data s))"

text \<open>The row that the two printing functions print for an entry.\<close>

definition row_of :: "cache_entry \<Rightarrow> event" where
  "row_of e = Row (snd e) (device_id (fst e)) (rssi (fst e))"

text \<open>
  The loop of \<open>test_pool\<close>, \<open>for (i = 0; i < n; i++) pointers[i] = pool_alloc(...)\<close>: \<open>n\<close>
  successive allocations and the pointers they return.
\<close>

fun pool_alloc_n :: "nat \<Rightarrow> fixedpool_t \<Rightarrow> 64 word \<Rightarrow> ptr list \<times> fixedpool_t" where
  "pool_alloc_n 0 pool sz = ([], pool)"
| "pool_alloc_n (Suc k) pool sz =
     (let (p, pool) = pool_alloc pool sz;
          (ps, pool) = pool_alloc_n k pool sz
      in (p # ps, pool))"

section \<open>The specification's recency cache\<close>

text \<open>
  The operations of the specification's Recency Cache (its section 4.2), in its words, on the
  sequence of entries from the most to the least recently updated. They are what the code is
  compared with, not a model of it.

  \<open>record_observation\<close>: scan for an entry with the observation's \<open>device_id\<close>; if there is
  one, update its \<open>rssi\<close>, set its \<open>last_seen\<close> and move it to the most-recent end; if not,
  evict the least recent entry when the cache is at capacity (\<open>N = 32\<close>) and insert a new entry
  at the most-recent end.
\<close>

definition record_observation ::
  "pair_adv_data_t \<Rightarrow> 64 word \<Rightarrow> cache_entry list \<Rightarrow> cache_entry list" where
  "record_observation obs now es =
     (case find (\<lambda>e. device_id (fst e) = device_id obs) es of
        Some e \<Rightarrow> ((fst e)\<lparr>rssi := rssi obs\<rparr>, now) # remove1 e es
      | None \<Rightarrow> (obs, now) # (if length es = 32 then butlast es else es))"

fun observe :: "cache_entry list \<Rightarrow> (pair_adv_data_t \<times> 64 word) list \<Rightarrow> cache_entry list" where
  "observe es [] = es"
| "observe es ((obs, now) # rest) = observe (record_observation obs now es) rest"

text \<open>\<open>snapshot_by_time\<close> after a sequence of observations of the empty cache.\<close>

definition cache_after :: "(pair_adv_data_t \<times> 64 word) list \<Rightarrow> cache_entry list" where
  "cache_after obs = observe [] obs"

text \<open>
  \<open>snapshot_by_signal_strength\<close>: the entries by descending \<open>rssi\<close>, ties in the order of the
  time-ordered sequence. \<open>sort_key\<close> is the library's stable insertion sort.
\<close>

definition snapshot_by_signal_strength :: "cache_entry list \<Rightarrow> cache_entry list" where
  "snapshot_by_signal_strength es = sort_key (\<lambda>e. - uint (rssi (fst e))) es"

text \<open>
  The same policy on identifiers alone: what one observation of identifier \<open>i\<close> does to the
  identifiers \<open>c\<close> of the cache, and the cache of a sequence of identifiers.
\<close>

definition lru_step :: "32 word list \<Rightarrow> 32 word \<Rightarrow> 32 word list" where
  "lru_step c i =
     (if i \<in> set c then i # remove1 i c
      else if length c = 32 then i # butlast c
      else i # c)"

definition lru_ids :: "32 word list \<Rightarrow> 32 word list" where
  "lru_ids is = foldl lru_step [] is"

definition lru_inv :: "32 word list \<Rightarrow> 32 word set \<Rightarrow> bool" where
  "lru_inv c seen =
     (distinct c \<and> length c \<le> 32 \<and> set c \<subseteq> seen \<and> (length c < 32 \<longrightarrow> set c = seen))"

section \<open>Concrete inputs\<close>

text \<open>
  The arena as the loader leaves it (\<open>device_pool\<close> is a zero-initialised global), and the
  advertisements of the repository's tests: \<open>pair_adv_data_t cur = {0}\<close> with \<open>device_id\<close> and
  \<open>rssi\<close> set. \<open>test_queue_fill i j\<close> is the sequence of \<open>test_queue_fill\<close> for the devices
  \<open>i, \<dots>, j - 1\<close>, the \<open>rssi\<close> starting at 1 and growing by 21, with \<open>k\<close> for the time of the
  \<open>k\<close>-th call.
\<close>

definition zero_pool :: fixedpool_t where
  "zero_pool = \<lparr>nextfree = None, blocksize = 0, blockcount = 0, blocks = (\<lambda>i. None)\<rparr>"

definition zero_devices :: "nat \<Rightarrow> device_t" where
  "zero_devices = (\<lambda>i. \<lparr>adv = \<lparr>device_id = 0, device_name = replicate 16 0,
      device_data = replicate 64 0, rf_address = 0, rssi = 0\<rparr>,
      discovery_time = 0, next = None, prev = None\<rparr>)"

definition test_adv :: "32 word \<Rightarrow> 8 word \<Rightarrow> pair_adv_data_t" where
  "test_adv i r = \<lparr>device_id = i, device_name = replicate 16 0, device_data = replicate 64 0,
      rf_address = 0, rssi = r\<rparr>"

definition test_queue_fill :: "nat \<Rightarrow> nat \<Rightarrow> (pair_adv_data_t \<times> 64 word) list" where
  "test_queue_fill i j =
     map (\<lambda>k. (test_adv (of_nat k) (of_nat (1 + 21 * (k - 1))), of_nat k)) [i..<j]"

section \<open>Paths and the queue operations\<close>

lemma path_append: "path h p (as @ bs) q = (\<exists>m. path h p as m \<and> path h m bs q)"
  by (induction as arbitrary: p) auto

lemma path_upd: "u \<notin> set ns \<Longrightarrow> path (h(u := v)) p ns q = path h p ns q"
  by (induction ns arbitrary: p) auto

lemma path_unique: "path h p as None \<Longrightarrow> path h p bs None \<Longrightarrow> as = bs"
proof (induction as arbitrary: p bs)
  case Nil
  then show ?case by (cases bs) auto
next
  case (Cons a as)
  then show ?case by (cases bs) auto
qed

lemma path_start_notin: "path h (Some x) ns q \<Longrightarrow> x \<notin> set ns \<Longrightarrow> ns = [] \<and> q = Some x"
  by (cases ns) auto

text \<open>
  What \<open>queue_remove\<close>, \<open>queue_push\<close> and \<open>queue_pop\<close> do to the links, to \<open>head\<close> and \<open>tail\<close>,
  and what they leave as it is; then their effect on a well-formed queue.
\<close>

lemma nexts_queue_remove:
  "nexts (queue_remove (Some d) s) =
     (case prevs s d of None \<Rightarrow> nexts s | Some p \<Rightarrow> (nexts s)(p := nexts s d))(d := None)"
  by (rule ext)
     (simp add: queue_remove_def Let_def nexts_def prevs_def set_next_def set_prev_def
           split: option.splits)

lemma prevs_queue_remove:
  "prevs (queue_remove (Some d) s) =
     (case nexts s d of None \<Rightarrow> prevs s | Some q \<Rightarrow> (prevs s)(q := prevs s d))(d := None)"
  by (rule ext)
     (simp add: queue_remove_def Let_def nexts_def prevs_def set_next_def set_prev_def
           split: option.splits)

lemma head_queue_remove:
  "head (queue_remove (Some d) s) = (if head s = Some d then nexts s d else head s)"
  by (simp add: queue_remove_def Let_def nexts_def prevs_def set_next_def set_prev_def
           split: option.splits)

lemma tail_queue_remove:
  "tail (queue_remove (Some d) s) = (if tail s = Some d then prevs s d else tail s)"
  by (simp add: queue_remove_def Let_def nexts_def prevs_def set_next_def set_prev_def
           split: option.splits)

lemma frame_queue_remove:
  "entry (queue_remove p s) = entry s"
  "device_pool (queue_remove p s) = device_pool s"
  "device_count (queue_remove (Some d) s) = device_count s - 1"
  by (auto simp add: queue_remove_def Let_def entry_def set_next_def set_prev_def fun_eq_iff
           split: option.splits)

lemma path_first_in: "path h p ns q \<Longrightarrow> ns \<noteq> [] \<Longrightarrow> \<exists>n \<in> set ns. p = Some n"
  by (cases ns) auto

lemma queue_nodes_remove:
  assumes "queue_nodes s (as @ d # bs)"
  shows "queue_nodes (queue_remove (Some d) s) (as @ bs)"
proof -
  from assms have dist: "distinct (as @ d # bs)"
    and nx: "path (nexts s) (head s) as (Some d)" "path (nexts s) (nexts s d) bs None"
    and pv: "path (prevs s) (tail s) (rev bs) (Some d)" "path (prevs s) (prevs s d) (rev as) None"
    by (auto simp: queue_nodes_def path_append)
  have hd_ne: "head s \<noteq> Some d" if "as \<noteq> []"
    using path_first_in [OF nx(1) that] dist by auto
  have tl_ne: "tail s \<noteq> Some d" if "bs \<noteq> []"
    using path_first_in [OF pv(1)] that dist by auto
  show ?thesis
  proof (cases as rule: rev_cases)
    case Nil
    note asNil = Nil
    show ?thesis
    proof (cases bs)
      case Nil
      with asNil nx pv dist show ?thesis
        by (auto simp: queue_nodes_def nexts_queue_remove prevs_queue_remove
              head_queue_remove tail_queue_remove)
    next
      case (Cons b bs')
      with asNil nx pv dist tl_ne show ?thesis
        by (auto simp: queue_nodes_def nexts_queue_remove prevs_queue_remove
              head_queue_remove tail_queue_remove path_append path_upd)
    qed
  next
    case (snoc as' a)
    note asSnoc = snoc
    show ?thesis
    proof (cases bs)
      case Nil
      with asSnoc nx pv dist hd_ne show ?thesis
        by (auto simp: queue_nodes_def nexts_queue_remove prevs_queue_remove
              head_queue_remove tail_queue_remove path_append path_upd)
    next
      case (Cons b bs')
      with asSnoc nx pv dist hd_ne tl_ne show ?thesis
        by (auto simp: queue_nodes_def nexts_queue_remove prevs_queue_remove
              head_queue_remove tail_queue_remove path_append path_upd)
    qed
  qed
qed

lemma nexts_queue_push: "nexts (queue_push (Some n) s) = (nexts s)(n := head s)"
  by (rule ext)
     (simp add: queue_push_def Let_def nexts_def set_next_def set_prev_def split: option.splits)

lemma prevs_queue_push:
  "prevs (queue_push (Some n) s) =
     (case head s of None \<Rightarrow> (prevs s)(n := None) | Some h \<Rightarrow> (prevs s)(n := None, h := Some n))"
  by (rule ext)
     (simp add: queue_push_def Let_def prevs_def set_next_def set_prev_def split: option.splits)

lemma head_queue_push: "head (queue_push (Some n) s) = Some n"
  by (simp add: queue_push_def Let_def set_next_def set_prev_def split: option.splits)

lemma tail_queue_push:
  "tail (queue_push (Some n) s) = (if tail s = None then Some n else tail s)"
  by (simp add: queue_push_def Let_def set_next_def set_prev_def split: option.splits)

lemma frame_queue_push:
  "entry (queue_push p s) = entry s"
  "device_pool (queue_push p s) = device_pool s"
  "device_count (queue_push (Some n) s) = device_count s + 1"
  by (auto simp add: queue_push_def Let_def entry_def set_next_def set_prev_def fun_eq_iff
           split: option.splits)

lemma queue_nodes_push:
  assumes "queue_nodes s ns" and "n \<notin> set ns"
  shows "queue_nodes (queue_push (Some n) s) (n # ns)"
proof (cases ns)
  case Nil
  with assms show ?thesis
    by (auto simp: queue_nodes_def nexts_queue_push prevs_queue_push head_queue_push
          tail_queue_push)
next
  case (Cons h hs)
  with assms have hd: "head s = Some h" and "path (prevs s) (tail s) (rev hs) (Some h)"
      and "prevs s h = None" and tl: "tail s \<noteq> None"
    using path_first_in [of "prevs s" "tail s" "rev ns" None]
    by (auto simp: queue_nodes_def path_append)
  with assms Cons show ?thesis
    by (auto simp: queue_nodes_def nexts_queue_push prevs_queue_push head_queue_push
          tail_queue_push path_append path_upd)
qed

lemma fst_queue_pop: "fst (queue_pop s) = tail s"
  by (simp add: queue_pop_def Let_def split: option.splits)

lemma nexts_queue_pop:
  "tail s = Some l \<Longrightarrow>
   nexts (snd (queue_pop s)) =
     (case prevs s l of None \<Rightarrow> nexts s | Some t \<Rightarrow> (nexts s)(t := None))"
  by (rule ext)
     (simp add: queue_pop_def Let_def nexts_def prevs_def set_next_def split: option.splits)

lemma prevs_queue_pop: "prevs (snd (queue_pop s)) = prevs s"
  by (rule ext)
     (simp add: queue_pop_def Let_def prevs_def set_next_def split: option.splits)

lemma head_queue_pop:
  "tail s = Some l \<Longrightarrow> head (snd (queue_pop s)) = (if head s = Some l then None else head s)"
  by (simp add: queue_pop_def Let_def set_next_def split: option.splits)

lemma tail_queue_pop: "tail s = Some l \<Longrightarrow> tail (snd (queue_pop s)) = prevs s l"
  by (simp add: queue_pop_def Let_def prevs_def set_next_def split: option.splits)

lemma frame_queue_pop:
  "entry (snd (queue_pop s)) = entry s"
  "device_pool (snd (queue_pop s)) = device_pool s"
  "tail s = Some l \<Longrightarrow> device_count (snd (queue_pop s)) = device_count s - 1"
  by (auto simp add: queue_pop_def Let_def entry_def set_next_def fun_eq_iff
           split: option.splits)

lemma queue_nodes_pop:
  assumes "queue_nodes s (ns @ [l])"
  shows "tail s = Some l" and "queue_nodes (snd (queue_pop s)) ns"
proof -
  from assms show tl: "tail s = Some l"
    by (auto simp: queue_nodes_def)
  from assms have dist: "distinct (ns @ [l])"
    and nx: "path (nexts s) (head s) ns (Some l)" "nexts s l = None"
    and pv: "path (prevs s) (prevs s l) (rev ns) None"
    by (auto simp: queue_nodes_def path_append)
  have hd_ne: "head s \<noteq> Some l" if "ns \<noteq> []"
    using path_first_in [OF nx(1) that] dist by auto
  show "queue_nodes (snd (queue_pop s)) ns"
  proof (cases ns rule: rev_cases)
    case Nil
    with tl dist nx pv show ?thesis
      by (auto simp: queue_nodes_def nexts_queue_pop prevs_queue_pop head_queue_pop
            tail_queue_pop)
  next
    case (snoc ns' t)
    with tl dist nx pv hd_ne show ?thesis
      by (auto simp: queue_nodes_def nexts_queue_pop prevs_queue_pop head_queue_pop
            tail_queue_pop path_append path_upd)
  qed
qed

lemma find_duplicate_loop_path:
  "path (\<lambda>n. next (devs n)) p ns None \<Longrightarrow>
   find_duplicate_loop devs did p = Some (find (\<lambda>n. device_id (adv (devs n)) = did) ns)"
proof (induction ns arbitrary: p)
  case Nil
  then show ?case by (simp add: find_duplicate_loop.simps)
next
  case (Cons n ns)
  then show ?case by (subst find_duplicate_loop.simps) auto
qed

section \<open>The pool\<close>

lemma pool_alloc_Cons:
  assumes "free_blocks pool (b # fs)"
  shows "fst (pool_alloc pool sz) = Some b" and "free_blocks (snd (pool_alloc pool sz)) fs"
  using assms by (auto simp: free_blocks_def pool_alloc_def path_upd)

lemma pool_alloc_Nil: "free_blocks pool [] \<Longrightarrow> pool_alloc pool sz = (None, pool)"
  by (simp add: free_blocks_def pool_alloc_def)

lemma pool_init_loop_path:
  "- 1 \<le> i \<Longrightarrow> path blks prv rest None \<Longrightarrow> \<forall>x \<in> set rest. i < int x \<Longrightarrow>
   path (snd (pool_init_loop i prv prv blks)) (fst (pool_init_loop i prv prv blks))
     ([0..<nat (i + 1)] @ rest) None"
proof (induction "nat (i + 1)" arbitrary: i prv blks rest)
  case 0
  then have "i = - 1" by simp
  with 0 show ?case by (simp add: pool_init_loop.simps)
next
  case (Suc k)
  then have i: "0 \<le> i" and k: "k = nat (i - 1 + 1)" by auto
  have "nat i \<notin> set rest"
    using Suc.prems(3) i by force
  then have "path (blks(nat i := prv)) (Some (nat i)) (nat i # rest) None"
    using Suc.prems by (simp add: path_upd)
  moreover have "\<forall>x \<in> set (nat i # rest). i - 1 < int x"
    using Suc.prems i by auto
  ultimately have
    "path (snd (pool_init_loop (i - 1) (Some (nat i)) (Some (nat i)) (blks(nat i := prv))))
       (fst (pool_init_loop (i - 1) (Some (nat i)) (Some (nat i)) (blks(nat i := prv))))
       ([0..<nat (i - 1 + 1)] @ nat i # rest) None"
    using Suc.hyps(1) [OF k] i by simp
  moreover have "[0..<nat (i + 1)] = [0..<nat (i - 1 + 1)] @ [nat i]"
    using i by (simp add: nat_add_distrib)
  ultimately show ?case
    using i by (subst (1 2) pool_init_loop.simps) simp
qed

lemma sint_blockcount:
  assumes "unat (n :: 32 word) \<le> 2 ^ 31"
  shows "sint (n - 1) = int (unat n) - 1"
proof (cases "n = 0")
  case True
  then show ?thesis by simp
next
  case False
  then have pos: "1 \<le> n" by (simp add: word_le_nat_alt unat_gt_0 Suc_leI)
  then have u: "unat (n - 1) = unat n - 1" by (simp add: unat_sub)
  have lt: "unat (n - 1) < 2 ^ 31" using u assms False by (simp add: unat_gt_0)
  have "sint (n - 1) = signed_take_bit 31 (int (unat (n - 1)))"
    by (simp add: sint_uint)
  also have "\<dots> = int (unat (n - 1))"
  proof (rule signed_take_bit_int_eq_self)
    show "- (2 ^ 31) \<le> int (unat (n - 1))" by (rule order_trans [of _ 0]) simp_all
    show "int (unat (n - 1)) < 2 ^ 31" using lt by (simp only: of_nat_less_numeral_power_cancel_iff)
  qed
  also have "\<dots> = int (unat n) - 1" using u False by (simp add: unat_gt_0 of_nat_diff Suc_leI)
  finally show ?thesis .
qed

lemma free_blocks_pool_init:
  assumes "unat n \<le> 2 ^ 31"
  shows "free_blocks (pool_init pool bsize n) [0..<unat n]"
proof -
  have "path (snd (pool_init_loop (sint (n - 1)) None None (blocks pool)))
          (fst (pool_init_loop (sint (n - 1)) None None (blocks pool)))
          ([0..<nat (sint (n - 1) + 1)] @ []) None"
    by (rule pool_init_loop_path) (simp_all add: sint_blockcount [OF assms] del: of_nat_unat)
  then show ?thesis
    by (simp add: free_blocks_def pool_init_def sint_blockcount [OF assms] split_beta)
qed

text \<open>
  With more than \<open>2^31\<close> blocks the \<open>int\<close> counter of \<open>pool_init\<close> starts negative, the
  loop body never runs and the pool is empty.
\<close>

lemma pool_init_counter_negative:
  "sint (n - 1) < 0 \<Longrightarrow> nextfree (pool_init pool bsize n) = None"
  by (simp add: pool_init_def pool_init_loop.simps)

section \<open>\<open>on_discovery\<close> refines \<open>record_observation\<close>\<close>

lemma obs_set_rssi:
  "nexts (set_rssi n v s) = nexts s" "prevs (set_rssi n v s) = prevs s"
  "head (set_rssi n v s) = head s" "tail (set_rssi n v s) = tail s"
  "device_count (set_rssi n v s) = device_count s" "device_pool (set_rssi n v s) = device_pool s"
  "entry (set_rssi n v s) = (entry s)(n := ((fst (entry s n))\<lparr>rssi := v\<rparr>, snd (entry s n)))"
  by (auto simp: set_rssi_def nexts_def prevs_def entry_def fun_eq_iff)

lemma obs_set_discovery_time:
  "nexts (set_discovery_time n t s) = nexts s" "prevs (set_discovery_time n t s) = prevs s"
  "head (set_discovery_time n t s) = head s" "tail (set_discovery_time n t s) = tail s"
  "device_count (set_discovery_time n t s) = device_count s"
  "device_pool (set_discovery_time n t s) = device_pool s"
  "entry (set_discovery_time n t s) = (entry s)(n := (fst (entry s n), t))"
  by (auto simp: set_discovery_time_def nexts_def prevs_def entry_def fun_eq_iff)

lemma obs_memcpy_adv:
  "nexts (memcpy_adv n d s) = nexts s" "prevs (memcpy_adv n d s) = prevs s"
  "head (memcpy_adv n d s) = head s" "tail (memcpy_adv n d s) = tail s"
  "device_count (memcpy_adv n d s) = device_count s"
  "device_pool (memcpy_adv n d s) = device_pool s"
  "entry (memcpy_adv n d s) = (entry s)(n := (d, snd (entry s n)))"
  by (auto simp: memcpy_adv_def nexts_def prevs_def entry_def fun_eq_iff)

lemma obs_device_pool_update:
  "nexts (s\<lparr>device_pool := p\<rparr>) = nexts s" "prevs (s\<lparr>device_pool := p\<rparr>) = prevs s"
  "entry (s\<lparr>device_pool := p\<rparr>) = entry s"
  by (auto simp: nexts_def prevs_def entry_def fun_eq_iff)

lemma queue_nodes_cong:
  "nexts s' = nexts s \<Longrightarrow> prevs s' = prevs s \<Longrightarrow> head s' = head s \<Longrightarrow> tail s' = tail s \<Longrightarrow>
   queue_nodes s' ns = queue_nodes s ns"
  by (simp add: queue_nodes_def)

lemma large_count_loop_skip: "device_count s \<le> 32 \<Longrightarrow> large_count_loop out s = Some (out, s)"
  by (subst large_count_loop.simps) simp

lemma find_duplicate_nodes:
  "queue_nodes s ns \<Longrightarrow>
   find_duplicate s data = Some (find (\<lambda>n. device_id (fst (entry s n)) = device_id data) ns)"
  using find_duplicate_loop_path [of "devices s" "head s" ns "device_id data"]
  by (simp add: find_duplicate_def queue_nodes_def nexts_def [abs_def] entry_def)

lemma on_discovery_found:
  "find_duplicate s data = Some (Some d) \<Longrightarrow>
   on_discovery data t s = Some ([], Inr (merged d data t s))"
  by (simp add: on_discovery_def merged_def Let_def)

lemma entry_merged:
  "entry (merged d data t s) = (entry s)(d := ((fst (entry s d))\<lparr>rssi := rssi data\<rparr>, t))"
  by (simp add: merged_def obs_set_discovery_time obs_set_rssi frame_queue_push frame_queue_remove)

lemma queue_nodes_merged:
  assumes "queue_nodes s ns" and "d \<in> set ns"
  shows "queue_nodes (merged d data t s) (d # remove1 d ns)"
proof -
  from assms(2) obtain as bs where ns: "ns = as @ d # bs" and "d \<notin> set as"
    by (auto dest: split_list_first)
  with assms(1) have rm: "remove1 d ns = as @ bs" and "d \<notin> set (as @ bs)"
    by (auto simp: remove1_append queue_nodes_def)
  with assms(1) ns have "queue_nodes (queue_push (Some d) (queue_remove (Some d) s)) (d # as @ bs)"
    by (intro queue_nodes_push queue_nodes_remove) simp_all
  then show ?thesis
    by (simp add: merged_def rm obs_set_rssi obs_set_discovery_time
          queue_nodes_cong [of "set_discovery_time d t (set_rssi d (rssi data) s0)" s0 for s0])
qed

lemma cache_inv_merged:
  assumes "cache_inv s ns fs" and "d \<in> set ns"
  shows "cache_inv (merged d data t s) (d # remove1 d ns) fs"
proof -
  from assms have nodes: "queue_nodes s ns" and dist: "distinct ns"
    by (auto simp: cache_inv_def queue_nodes_def)
  have set_eq: "set (d # remove1 d ns) = set ns"
    using assms(2) dist by auto
  have len: "length (d # remove1 d ns) = length ns"
    using assms(2) by (simp add: length_remove1) (cases ns, auto)
  have ids: "device_id (fst (entry (merged d data t s) n)) = device_id (fst (entry s n))" for n
    by (simp add: entry_merged)
  have "inj_on (\<lambda>n. device_id (fst (entry s n))) (set ns)"
    using assms(1) by (simp add: cache_inv_def distinct_map)
  then have "distinct (map (\<lambda>n. device_id (fst (entry (merged d data t s) n))) (d # remove1 d ns))"
    unfolding distinct_map ids set_eq using dist assms(2) by simp
  moreover have "device_pool (merged d data t s) = device_pool s"
    "device_count (merged d data t s) = device_count s"
    by (simp_all add: merged_def obs_set_rssi obs_set_discovery_time frame_queue_push
          frame_queue_remove)
  ultimately show ?thesis
    using assms(1) queue_nodes_merged [OF nodes assms(2)] set_eq len
    unfolding cache_inv_def by simp
qed

lemma on_discovery_alloc:
  "find_duplicate s data = Some None \<Longrightarrow> device_count s < 32 \<Longrightarrow>
   pool_alloc (device_pool s) sizeof_device_t = (Some b, pool') \<Longrightarrow>
   on_discovery data t s = Some ([], Inr (inserted b data t (s\<lparr>device_pool := pool'\<rparr>)))"
  by (simp add: on_discovery_def inserted_def Let_def large_count_loop_skip)

lemma on_discovery_evict:
  "find_duplicate s data = Some None \<Longrightarrow> device_count s = 32 \<Longrightarrow> tail s = Some l \<Longrightarrow>
   on_discovery data t s = Some ([], Inr (inserted l data t (snd (queue_pop s))))"
  using fst_queue_pop [of s]
  by (simp add: on_discovery_def inserted_def Let_def large_count_loop_skip split_beta)

lemma entry_inserted: "entry (inserted n data t s) = (entry s)(n := (data, t))"
  by (simp add: inserted_def frame_queue_push obs_set_discovery_time obs_memcpy_adv)

lemma queue_nodes_inserted:
  assumes "queue_nodes s ns" and "n \<notin> set ns"
  shows "queue_nodes (inserted n data t s) (n # ns)"
  unfolding inserted_def
  by (rule queue_nodes_push)
     (use assms in \<open>simp_all add: obs_memcpy_adv obs_set_discovery_time
        queue_nodes_cong [of "set_discovery_time n t (memcpy_adv n data s)" s]\<close>)

lemma cache_inv_inserted:
  assumes "queue_nodes s ns" and "free_blocks (device_pool s) fs"
    and "set ns \<inter> set fs = {}" and "n \<notin> set ns" and "n \<notin> set fs"
    and "length ns + length fs = 31" and "device_count s = int (length ns)"
    and "distinct (map (\<lambda>n. device_id (fst (entry s n))) ns)"
    and "device_id data \<notin> (\<lambda>n. device_id (fst (entry s n))) ` set ns"
  shows "cache_inv (inserted n data t s) (n # ns) fs"
proof -
  have ids_eq: "map (\<lambda>m. device_id (fst (entry (inserted n data t s) m))) ns =
        map (\<lambda>m. device_id (fst (entry s m))) ns"
    using assms(4) by (auto simp: entry_inserted)
  have hd: "entry (inserted n data t s) n = (data, t)"
    by (simp add: entry_inserted)
  have "device_pool (inserted n data t s) = device_pool s"
    "device_count (inserted n data t s) = device_count s + 1"
    by (simp_all add: inserted_def frame_queue_push obs_set_discovery_time obs_memcpy_adv)
  then show ?thesis
    using assms queue_nodes_inserted [OF assms(1,4)]
    unfolding cache_inv_def by (simp add: ids_eq hd)
qed

lemma find_map_entry: "find P (map f xs) = map_option f (find (\<lambda>x. P (f x)) xs)"
  by (induction xs) auto

lemma remove1_map_inj:
  "inj_on f (set xs) \<Longrightarrow> x \<in> set xs \<Longrightarrow> remove1 (f x) (map f xs) = map f (remove1 x xs)"
  by (induction xs) (auto simp: inj_on_def)

lemma on_discovery_refines:
  assumes inv: "cache_inv s ns fs"
  shows "\<exists>s' ns' fs'. on_discovery data t s = Some ([], Inr s') \<and> cache_inv s' ns' fs' \<and>
           map (entry s') ns' = record_observation data t (map (entry s) ns)"
proof -
  let ?P = "\<lambda>n. device_id (fst (entry s n)) = device_id data"
  from inv have nodes: "queue_nodes s ns" and dist: "distinct ns"
    and free: "free_blocks (device_pool s) fs" and disj: "set ns \<inter> set fs = {}"
    and len: "length ns + length fs = 32" and cnt: "device_count s = int (length ns)"
    and ids: "distinct (map (\<lambda>n. device_id (fst (entry s n))) ns)"
    by (auto simp: cache_inv_def queue_nodes_def)
  have fd: "find_duplicate s data = Some (find ?P ns)"
    by (rule find_duplicate_nodes [OF nodes])
  have fm: "find (\<lambda>e. device_id (fst e) = device_id data) (map (entry s) ns)
              = map_option (entry s) (find ?P ns)"
    by (simp add: find_map_entry)
  show ?thesis
  proof (cases "find ?P ns")
    case (Some d)
    then have d: "d \<in> set ns" and Pd: "?P d"
      by (auto simp: find_Some_iff)
    have inj: "inj_on (entry s) (set ns)"
      using ids by (auto simp: distinct_map inj_on_def)
    have "map (entry (merged d data t s)) (remove1 d ns) = map (entry s) (remove1 d ns)"
      using dist by (auto simp: entry_merged)
    then have "map (entry (merged d data t s)) (d # remove1 d ns)
                 = record_observation data t (map (entry s) ns)"
      using Some d by (simp add: record_observation_def fm entry_merged remove1_map_inj [OF inj])
    with on_discovery_found [of s data d t] cache_inv_merged [OF inv d, of data t] fd Some
    show ?thesis by auto
  next
    case None
    then have fresh: "device_id data \<notin> (\<lambda>n. device_id (fst (entry s n))) ` set ns"
      by (auto simp: find_None_iff)
    show ?thesis
    proof (cases "length ns = 32")
      case True
      with len have fs: "fs = []" by simp
      from True obtain ns0 l where ns: "ns = ns0 @ [l]"
        by (cases ns rule: rev_cases) auto
      note pop = queue_nodes_pop [OF nodes [unfolded ns]]
      let ?s1 = "snd (queue_pop s)"
      have "cache_inv (inserted l data t ?s1) (l # ns0) fs"
      proof (rule cache_inv_inserted)
        show "queue_nodes ?s1 ns0" by (rule pop(2))
        show "free_blocks (device_pool ?s1) fs" using free by (simp add: frame_queue_pop)
        show "device_count ?s1 = int (length ns0)"
          using cnt ns pop(1) by (simp add: frame_queue_pop)
        show "distinct (map (\<lambda>n. device_id (fst (entry ?s1 n))) ns0)"
          using ids ns by (simp add: frame_queue_pop)
        show "device_id data \<notin> (\<lambda>n. device_id (fst (entry ?s1 n))) ` set ns0"
          using fresh ns by (auto simp: frame_queue_pop)
      qed (use dist ns fs True in auto)
      moreover have "map (entry (inserted l data t ?s1)) (l # ns0)
                       = record_observation data t (map (entry s) ns)"
      proof -
        have "record_observation data t (map (entry s) ns) = (data, t) # butlast (map (entry s) ns)"
          using None True by (simp add: record_observation_def fm)
        also have "butlast (map (entry s) ns) = map (entry s) ns0"
          by (simp add: ns)
        also have "(data, t) # map (entry s) ns0 = map (entry (inserted l data t ?s1)) (l # ns0)"
          using dist ns by (auto simp: entry_inserted frame_queue_pop)
        finally show ?thesis by simp
      qed
      moreover have "on_discovery data t s = Some ([], Inr (inserted l data t ?s1))"
        using fd None cnt True pop(1) by (intro on_discovery_evict) simp_all
      ultimately show ?thesis by blast
    next
      case False
      with len obtain b fs' where fs: "fs = b # fs'"
        by (cases fs) auto
      let ?pool = "snd (pool_alloc (device_pool s) sizeof_device_t)"
      let ?s1 = "s\<lparr>device_pool := ?pool\<rparr>"
      note alloc = pool_alloc_Cons [OF free [unfolded fs], of sizeof_device_t]
      have "cache_inv (inserted b data t ?s1) (b # ns) fs'"
      proof (rule cache_inv_inserted)
        show "queue_nodes ?s1 ns"
          using nodes by (simp add: queue_nodes_def obs_device_pool_update)
        show "free_blocks (device_pool ?s1) fs'" using alloc(2) by simp
        show "device_count ?s1 = int (length ns)" using cnt by simp
        show "distinct (map (\<lambda>n. device_id (fst (entry ?s1 n))) ns)"
          using ids by (simp add: obs_device_pool_update)
        show "device_id data \<notin> (\<lambda>n. device_id (fst (entry ?s1 n))) ` set ns"
          using fresh by (simp add: obs_device_pool_update)
      qed (use disj free len fs in \<open>auto simp: free_blocks_def\<close>)
      moreover have "map (entry (inserted b data t ?s1)) (b # ns)
                       = record_observation data t (map (entry s) ns)"
        using disj fs None False
        by (auto simp: record_observation_def fm entry_inserted obs_device_pool_update)
      moreover have "on_discovery data t s = Some ([], Inr (inserted b data t ?s1))"
        using fd None cnt False len alloc(1)
        by (intro on_discovery_alloc) (simp_all add: prod_eq_iff)
      ultimately show ?thesis by blast
    qed
  qed
qed

section \<open>The printing functions on a well-formed queue\<close>

lemma print_time_loop_path:
  "path (\<lambda>n. next (devs n)) p ns None \<Longrightarrow>
   print_time_loop devs out p =
     Some (out @ map (\<lambda>n. Row (discovery_time (devs n)) (device_id (adv (devs n)))
                              (rssi (adv (devs n)))) ns)"
proof (induction ns arbitrary: p out)
  case Nil
  then show ?case by (simp add: print_time_loop.simps)
next
  case (Cons n ns)
  then show ?case by (subst print_time_loop.simps) auto
qed

lemma print_queue_by_time_nodes:
  "queue_nodes s ns \<Longrightarrow>
   print_queue_by_time s = Some (TimeHeading # map row_of (map (entry s) ns))"
  using print_time_loop_path [of "devices s" "head s" ns "[TimeHeading]"]
  by (simp add: print_queue_by_time_def queue_nodes_def nexts_def [abs_def] entry_def row_of_def
        comp_def)

text \<open>
  The inner loop of the sort is \<open>insort_key\<close> on the reversed array prefix: the new pointer
  moves left past the pointers of strictly smaller \<open>rssi\<close> and stops at the first that is not.
\<close>

lemma rssi_sift_step:
  "0 < j \<Longrightarrow> a ! j = Some n \<Longrightarrow> a ! (j - 1) = Some x \<Longrightarrow>
   rssi_sift devs a j =
     (if rssi (adv (devs x)) < rssi (adv (devs n))
      then rssi_sift devs (a[j := Some x, j - 1 := Some n]) (j - 1) else Inr a)"
  by (subst rssi_sift.simps) simp

lemma rssi_sift_insort:
  "rssi_sift devs (map Some (xs @ [n]) @ rest) (length xs) =
     Inr (map Some (rev (insort_key (\<lambda>m. rssi (adv (devs m))) n (rev xs))) @ rest)"
proof (induction xs arbitrary: rest rule: rev_induct)
  case Nil
  show ?case by (subst rssi_sift.simps) simp
next
  case (snoc x xs)
  let ?a = "map Some ((xs @ [x]) @ [n]) @ rest" and ?j = "length (xs @ [x])"
  have upd: "?a[?j := Some x, ?j - 1 := Some n] = map Some (xs @ [n]) @ (Some x # rest)"
    by (simp add: list_update_append)
  have nth1: "?a ! ?j = Some n"
    by (simp add: nth_append)
  have nth2: "?a ! (?j - 1) = Some x"
    by (simp add: nth_append)
  have step: "rssi_sift devs ?a ?j =
      (if rssi (adv (devs x)) < rssi (adv (devs n))
       then rssi_sift devs (map Some (xs @ [n]) @ (Some x # rest)) (?j - 1) else Inr ?a)"
    using rssi_sift_step [OF _ nth1 nth2, of devs] unfolding upd by simp
  show ?case
    unfolding step using snoc.IH [of "Some x # rest"] by (auto simp: not_less)
qed

lemma rssi_sort_loop_step:
  "next_i < 32 \<Longrightarrow> rssi_sift (devices s) (a[next_i := Some n]) next_i = Inr a' \<Longrightarrow>
   rssi_sort_loop s (Some n) a next_i = rssi_sort_loop s (next (devices s n)) a' (next_i + 1)"
  by (subst rssi_sort_loop.simps) simp

lemma rssi_sort_loop_path:
  assumes "path (nexts s) p ns None" and "length r + length ns \<le> 32"
  shows "rssi_sort_loop s p (map Some (rev r) @ replicate (32 - length r) None) (length r) =
     Some ([], Inr (let r' = foldl (\<lambda>r n. insort_key (\<lambda>m. rssi (adv (devices s m))) n r) r ns
                    in (map Some (rev r') @ replicate (32 - length r') None, length r')))"
  using assms
proof (induction ns arbitrary: p r)
  case Nil
  then show ?case by (simp add: rssi_sort_loop.simps)
next
  case (Cons n ns)
  let ?g = "\<lambda>m. rssi (adv (devices s m))"
  let ?a = "map Some (rev r) @ replicate (32 - length r) None"
  let ?a' = "map Some (rev (insort_key ?g n r)) @ replicate (32 - length (insort_key ?g n r)) None"
  from Cons.prems have lt: "length r < 32" and p: "p = Some n"
    and rest: "path (nexts s) (nexts s n) ns None"
    by auto
  have arr: "?a[length r := Some n]
               = map Some (rev r @ [n]) @ replicate (32 - length (insort_key ?g n r)) None"
    using lt by (cases "32 - length r") (simp_all add: list_update_append)
  have sift: "rssi_sift (devices s) (?a[length r := Some n]) (length r) = Inr ?a'"
    unfolding arr using rssi_sift_insort [of "devices s" "rev r" n] by simp
  have "length (insort_key ?g n r) + length ns \<le> 32"
    using Cons.prems(2) by simp
  from Cons.IH [OF rest this] show ?case
    unfolding p rssi_sort_loop_step [OF lt sift] by (simp add: nexts_def)
qed

lemma print_sorted_rows:
  assumes "length ms \<le> 32" and "j \<le> length ms"
  shows "print_sorted devs (map Some ms @ replicate (32 - length ms) None) j out =
     (out @ map (\<lambda>n. Row (discovery_time (devs n)) (device_id (adv (devs n)))
                         (rssi (adv (devs n)))) (drop j ms),
      if length ms < 32 then Some NullDeref else None)"
  using assms
proof (induction "length ms - j" arbitrary: j out)
  case 0
  then have j: "j = length ms" by simp
  show ?case
  proof (cases "length ms < 32")
    case True
    then show ?thesis by (subst print_sorted.simps) (simp add: j nth_append)
  next
    case False
    with 0 show ?thesis by (subst print_sorted.simps) (simp add: j)
  qed
next
  case (Suc k)
  then have j: "j < length ms" "j < 32" and k: "k = length ms - (j + 1)" by auto
  have "drop j ms = ms ! j # drop (j + 1) ms"
    using j by (simp add: Cons_nth_drop_Suc)
  with Suc.hyps(1) [OF k] Suc.prems j show ?case
    by (subst print_sorted.simps) (simp add: nth_append)
qed

lemma foldl_insort_sort_key:
  "foldl (\<lambda>r n. insort_key g n r) [] ns = sort_key g (rev ns)"
  by (simp add: sort_key_def foldl_conv_foldr)

lemma insort_key_map: "insort_key f (h x) (map h xs) = map h (insort_key (\<lambda>x. f (h x)) x xs)"
  by (induction xs) auto

lemma sort_key_map: "sort_key f (map h xs) = map h (sort_key (\<lambda>x. f (h x)) xs)"
  by (induction xs) (auto simp: insort_key_map)

lemma descending_stable_sort:
  fixes g :: "'a \<Rightarrow> 8 word"
  shows "rev (sort_key g (rev xs)) = sort_key (\<lambda>x. - uint (g x)) xs"
proof (rule properties_for_sort_key [symmetric])
  show "mset (rev (sort_key g (rev xs))) = mset xs"
    by simp
next
  fix k
  have "filter (\<lambda>x. g x = g k) (rev (sort_key g (rev xs))) = filter (\<lambda>x. g x = g k) xs"
    by (simp add: rev_filter [symmetric] sort_key_stable)
  moreover have "(\<lambda>x. - uint (g k) = - uint (g x)) = (\<lambda>x. g x = g k)"
    by (auto simp: word_uint_eq_iff)
  ultimately show "filter (\<lambda>x. - uint (g k) = - uint (g x)) (rev (sort_key g (rev xs)))
                     = filter (\<lambda>x. - uint (g k) = - uint (g x)) xs"
    by simp
next
  have "sorted_wrt (\<lambda>x y. g x \<le> g y) (sort_key g (rev xs))"
    using sorted_sort_key [of g "rev xs"] by (simp only: sorted_map)
  then have "sorted_wrt (\<lambda>x y. - uint (g y) \<le> - uint (g x)) (sort_key g (rev xs))"
    by (rule sorted_wrt_mono_rel [rotated]) (simp add: word_le_def)
  then show "sorted (map (\<lambda>x. - uint (g x)) (rev (sort_key g (rev xs))))"
    by (simp add: sorted_map sorted_wrt_rev)
qed

lemma print_queue_by_rssi_nodes:
  assumes "queue_nodes s ns" and "length ns \<le> 32"
  shows "print_queue_by_rssi s =
     Some (RssiHeading # map row_of (snapshot_by_signal_strength (map (entry s) ns)),
           if length ns < 32 then Some NullDeref else None)"
proof -
  let ?g = "\<lambda>m. rssi (adv (devices s m))"
  let ?ms = "rev (sort_key ?g (rev ns))"
  have loop: "rssi_sort_loop s (head s) (replicate 32 None) 0
          = Some ([], Inr (map Some ?ms @ replicate (32 - length ?ms) None, length ?ms))"
    using assms rssi_sort_loop_path [of s "head s" ns "[]"]
    by (simp add: queue_nodes_def Let_def foldl_insort_sort_key)
  have "snapshot_by_signal_strength (map (entry s) ns)
          = rev (sort_key (\<lambda>e. rssi (fst e)) (map (entry s) (rev ns)))"
    by (simp add: snapshot_by_signal_strength_def descending_stable_sort [symmetric] rev_map)
  also have "\<dots> = map (entry s) ?ms"
    by (simp only: sort_key_map rev_map) (simp add: entry_def)
  finally have rows: "map (\<lambda>n. Row (discovery_time (devices s n)) (device_id (adv (devices s n)))
                         (rssi (adv (devices s n)))) ?ms
        = map row_of (snapshot_by_signal_strength (map (entry s) ns))"
    by (simp add: row_of_def entry_def comp_def)
  show ?thesis
    using assms(2) print_sorted_rows [of ?ms 0 "devices s" "[RssiHeading]"]
    by (simp add: print_queue_by_rssi_def loop rows)
qed

section \<open>Reachable states\<close>

lemma cache_inv_initial_state: "cache_inv (initial_state pool0 mem0) [] [0..<32]"
  using free_blocks_pool_init [of 32 pool0 sizeof_device_t]
  by (simp add: cache_inv_def queue_nodes_def initial_state_def)

lemma discoveries_refines:
  "cache_inv s ns fs \<Longrightarrow>
   \<exists>s' ns' fs'. discoveries s obs = Some (Inr s') \<and> cache_inv s' ns' fs' \<and>
      map (entry s') ns' = observe (map (entry s) ns) obs"
proof (induction obs arbitrary: s ns fs)
  case Nil
  then show ?case by auto
next
  case (Cons ob obs)
  obtain data t where ob: "ob = (data, t)" by (cases ob)
  from on_discovery_refines [OF Cons.prems, of data t]
  obtain s1 ns1 fs1 where step: "on_discovery data t s = Some ([], Inr s1)"
    and inv1: "cache_inv s1 ns1 fs1"
    and abs1: "map (entry s1) ns1 = record_observation data t (map (entry s) ns)"
    by blast
  from Cons.IH [OF inv1] show ?case
    by (simp add: ob step abs1)
qed

lemma reachable_cache:
  "\<exists>s ns fs. discoveries (initial_state pool0 mem0) obs = Some (Inr s) \<and> cache_inv s ns fs \<and>
      map (entry s) ns = cache_after obs"
  using discoveries_refines [OF cache_inv_initial_state, of pool0 mem0 obs]
  by (simp add: cache_after_def)

lemma queue_nodes_unique: "queue_nodes s ns \<Longrightarrow> queue_nodes s ms \<Longrightarrow> ns = ms"
  by (auto simp: queue_nodes_def dest: path_unique)

text \<open>
  \<open>queue_clear\<close> returns every block of the queue to the pool and leaves the empty cache with
  its invariant, so a run of observations after it refines the specification's cache as a run
  from the initial state does.
\<close>

lemma free_blocks_pool_free:
  "free_blocks pool fs \<Longrightarrow> b \<notin> set fs \<Longrightarrow> free_blocks (snd (pool_free pool (Some b))) (b # fs)"
  by (simp add: free_blocks_def pool_free_def path_upd)

lemma queue_clear_loop_inv:
  "cache_inv s ns fs \<Longrightarrow>
   \<exists>out' s'. queue_clear_loop out s = Some (out', s') \<and> cache_inv s' [] (ns @ fs)"
proof (induction ns arbitrary: s fs out rule: rev_induct)
  case Nil
  then have "head s = None"
    by (simp add: cache_inv_def queue_nodes_def)
  with Nil show ?case
    by (subst queue_clear_loop.simps) simp
next
  case (snoc l ns)
  let ?s1 = "snd (queue_pop s)"
  let ?pool = "snd (pool_free (device_pool ?s1) (Some l))"
  let ?s2 = "?s1\<lparr>device_pool := ?pool\<rparr>"
  from snoc.prems have nodes: "queue_nodes s (ns @ [l])"
    and free: "free_blocks (device_pool s) fs" and disj: "set (ns @ [l]) \<inter> set fs = {}"
    and len: "length (ns @ [l]) + length fs = 32" and cnt: "device_count s = int (length (ns @ [l]))"
    and ids: "distinct (map (\<lambda>n. device_id (fst (entry s n))) (ns @ [l]))"
    by (simp_all add: cache_inv_def)
  note pop = queue_nodes_pop [OF nodes]
  have hd: "head s \<noteq> None"
    using nodes path_first_in [of "nexts s" "head s" "ns @ [l]" None]
    by (auto simp: queue_nodes_def)
  have "cache_inv ?s2 ns (l # fs)"
    unfolding cache_inv_def
  proof (intro conjI)
    show "queue_nodes ?s2 ns"
      using pop(2) by (simp add: queue_nodes_def obs_device_pool_update)
    show "free_blocks (device_pool ?s2) (l # fs)"
      using free disj by (simp add: frame_queue_pop free_blocks_pool_free)
    show "set ns \<inter> set (l # fs) = {}"
      using disj nodes by (auto simp: queue_nodes_def)
    show "length ns + length (l # fs) = 32" using len by simp
    show "device_count ?s2 = int (length ns)"
      using cnt pop(1) by (simp add: frame_queue_pop)
    show "distinct (map (\<lambda>n. device_id (fst (entry ?s2 n))) ns)"
      using ids by (simp add: obs_device_pool_update frame_queue_pop)
  qed
  from snoc.IH [OF this] obtain out' s'
    where "queue_clear_loop (out @ fst (pool_free (device_pool ?s1) (Some l))) ?s2 = Some (out', s')"
      and "cache_inv s' [] (ns @ l # fs)"
    by blast
  with hd pop(1) fst_queue_pop [of s] show ?case
    by (subst queue_clear_loop.simps) (simp add: split_beta)
qed

lemma queue_clear_inv:
  "cache_inv s ns fs \<Longrightarrow> \<exists>out s'. queue_clear s = Some (out, s') \<and> cache_inv s' [] (ns @ fs)"
  unfolding queue_clear_def by (rule queue_clear_loop_inv)

lemma discoveries_after_queue_clear:
  assumes "cache_inv s0 ns0 fs0" and "queue_clear s0 = Some (out, s)"
  shows "\<exists>s' ns fs. discoveries s obs = Some (Inr s') \<and> cache_inv s' ns fs \<and>
           map (entry s') ns = cache_after obs"
proof -
  from queue_clear_inv [OF assms(1)] assms(2) have "cache_inv s [] (ns0 @ fs0)"
    by auto
  from discoveries_refines [OF this, of obs] show ?thesis
    by (simp add: cache_after_def)
qed

section \<open>The eviction policy on identifiers\<close>

lemma record_observation_ids:
  assumes "distinct (map (\<lambda>e. device_id (fst e)) es)"
  shows "map (\<lambda>e. device_id (fst e)) (record_observation d t es)
           = lru_step (map (\<lambda>e. device_id (fst e)) es) (device_id d)"
proof (cases "find (\<lambda>e. device_id (fst e) = device_id d) es")
  case None
  then have "device_id d \<notin> set (map (\<lambda>e. device_id (fst e)) es)"
    by (auto simp: find_None_iff)
  with None show ?thesis
    by (simp add: record_observation_def lru_step_def map_butlast)
next
  case (Some e)
  then have e: "e \<in> set es" "device_id (fst e) = device_id d"
    by (auto simp: find_Some_iff)
  have "inj_on (\<lambda>e. device_id (fst e)) (set es)"
    using assms by (simp add: distinct_map)
  from remove1_map_inj [OF this e(1)] e Some show ?thesis
    by (simp add: record_observation_def lru_step_def) force
qed

lemma distinct_lru_step: "distinct c \<Longrightarrow> distinct (lru_step c i)"
  by (auto simp: lru_step_def distinct_butlast dest: in_set_butlastD)

lemma observe_ids:
  "distinct (map (\<lambda>e. device_id (fst e)) es) \<Longrightarrow>
   map (\<lambda>e. device_id (fst e)) (observe es obs)
     = foldl lru_step (map (\<lambda>e. device_id (fst e)) es) (map (\<lambda>ob. device_id (fst ob)) obs)"
proof (induction obs arbitrary: es)
  case Nil
  then show ?case by simp
next
  case (Cons ob obs)
  obtain d t where ob: "ob = (d, t)" by (cases ob)
  have "distinct (map (\<lambda>e. device_id (fst e)) (record_observation d t es))"
    using Cons.prems by (simp add: record_observation_ids distinct_lru_step)
  from Cons.IH [OF this] Cons.prems show ?case
    by (simp add: ob record_observation_ids)
qed

lemma cache_after_ids:
  "map (\<lambda>e. device_id (fst e)) (cache_after obs) = lru_ids (map (\<lambda>ob. device_id (fst ob)) obs)"
  using observe_ids [of "[]" obs] by (simp add: cache_after_def lru_ids_def)

lemma lru_inv_step: "lru_inv c seen \<Longrightarrow> lru_inv (lru_step c i) (insert i seen)"
  unfolding lru_inv_def
  by (intro conjI distinct_lru_step)
     (auto simp: lru_step_def length_remove1 dest: in_set_butlastD)

lemma lru_inv_foldl: "lru_inv c seen \<Longrightarrow> lru_inv (foldl lru_step c is) (seen \<union> set is)"
proof (induction "is" arbitrary: c seen)
  case Nil
  then show ?case by simp
next
  case (Cons i "is")
  from Cons.IH [OF lru_inv_step [OF Cons.prems, of i]] show ?case by simp
qed

lemma length_lru_ids: "length (lru_ids is) = min 32 (card (set is))"
proof -
  have inv: "lru_inv (lru_ids is) (set is)"
    using lru_inv_foldl [of "[]" "{}" "is"] by (simp add: lru_ids_def lru_inv_def)
  show ?thesis
  proof (cases "length (lru_ids is) < 32")
    case True
    with inv have "set (lru_ids is) = set is" and "distinct (lru_ids is)"
      by (auto simp: lru_inv_def)
    then have "card (set is) = length (lru_ids is)"
      by (metis distinct_card)
    with True show ?thesis by simp
  next
    case False
    with inv have len: "length (lru_ids is) = 32" and "distinct (lru_ids is)"
      and "set (lru_ids is) \<subseteq> set is"
      by (auto simp: lru_inv_def)
    then have "32 \<le> card (set is)"
      by (metis distinct_card card_mono List.finite_set)
    with len show ?thesis by simp
  qed
qed

section \<open>Successive allocations\<close>

lemma pool_alloc_n_free_blocks:
  "free_blocks pool fs \<Longrightarrow>
   fst (pool_alloc_n (length fs) pool sz) = map Some fs \<and>
   nextfree (snd (pool_alloc_n (length fs) pool sz)) = None \<and>
   (\<forall>b \<in> set fs. blocks (snd (pool_alloc_n (length fs) pool sz)) b = None)"
proof (induction fs arbitrary: pool)
  case Nil
  then show ?case by (simp add: free_blocks_def)
next
  case (Cons b fs)
  let ?p1 = "snd (pool_alloc pool sz)"
  note alloc = pool_alloc_Cons [OF Cons.prems, of sz]
  have b: "blocks ?p1 b = None"
    using Cons.prems by (simp add: pool_alloc_def free_blocks_def)
  have keep: "blocks (snd (pool_alloc_n (length fs) p sz)) b = blocks p b"
    if "free_blocks p fs" "b \<notin> set fs" for p
    using that
  proof (induction fs arbitrary: p)
    case Nil
    then show ?case by simp
  next
    case (Cons c cs)
    from pool_alloc_Cons [OF Cons.prems(1), of sz] Cons.prems Cons.IH [of "snd (pool_alloc p sz)"]
    show ?case
      by (auto simp: split_beta pool_alloc_def free_blocks_def)
  qed
  from Cons.IH [OF alloc(2)] alloc(1) b keep [OF alloc(2)] Cons.prems show ?case
    by (auto simp: split_beta free_blocks_def)
qed


section \<open>The state after a sequence of observations\<close>

lemma live_ids_entry: "live_ids s ns = map (\<lambda>e. device_id (fst e)) (map (entry s) ns)"
  by (simp add: live_ids_def entry_def comp_def)

lemma reachable_state:
  "\<exists>s ns. discoveries (initial_state pool0 mem0) obs = Some (Inr s) \<and> queue_nodes s ns \<and>
      map (entry s) ns = cache_after obs \<and>
      live_ids s ns = lru_ids (map (\<lambda>ob. device_id (fst ob)) obs) \<and>
      distinct (live_ids s ns) \<and> device_count s = int (length ns) \<and> length ns \<le> 32"
proof -
  from reachable_cache [of pool0 mem0 obs] obtain s ns fs
    where run: "discoveries (initial_state pool0 mem0) obs = Some (Inr s)"
      and inv: "cache_inv s ns fs" and abs: "map (entry s) ns = cache_after obs"
    by blast
  have "live_ids s ns = lru_ids (map (\<lambda>ob. device_id (fst ob)) obs)"
    by (simp only: live_ids_entry abs cache_after_ids)
  moreover have "distinct (live_ids s ns)"
    using inv by (simp add: cache_inv_def live_ids_def entry_def)
  ultimately show ?thesis
    using run inv abs by (auto simp: cache_inv_def)
qed

lemma snapshot_by_signal_strength_stable:
  "mset (snapshot_by_signal_strength es) = mset es"
  "sorted_wrt (\<lambda>a b. rssi (fst b) \<le> rssi (fst a)) (snapshot_by_signal_strength es)"
  "filter (\<lambda>e. rssi (fst e) = k) (snapshot_by_signal_strength es)
     = filter (\<lambda>e. rssi (fst e) = k) es"
proof -
  show "mset (snapshot_by_signal_strength es) = mset es"
    by (simp add: snapshot_by_signal_strength_def)
  have "sorted (map (\<lambda>e. - uint (rssi (fst e))) (snapshot_by_signal_strength es))"
    by (simp add: snapshot_by_signal_strength_def)
  then show "sorted_wrt (\<lambda>a b. rssi (fst b) \<le> rssi (fst a)) (snapshot_by_signal_strength es)"
    by (simp add: sorted_map word_le_def)
  have "filter (\<lambda>e. - uint (rssi (fst e)) = - uint k) (snapshot_by_signal_strength es)
          = filter (\<lambda>e. - uint (rssi (fst e)) = - uint k) es"
    unfolding snapshot_by_signal_strength_def by (rule sort_key_stable)
  then show "filter (\<lambda>e. rssi (fst e) = k) (snapshot_by_signal_strength es)
               = filter (\<lambda>e. rssi (fst e) = k) es"
    by (simp add: word_uint_eq_iff)
qed

lemma find_unique:
  "distinct (map f ns) \<Longrightarrow> d \<in> set ns \<Longrightarrow> f d = k \<Longrightarrow> find (\<lambda>n. f n = k) ns = Some d"
  by (induction ns) (auto simp: image_iff)

lemma test_queue_fill_ids:
  "map (\<lambda>ob. device_id (fst ob)) (test_queue_fill i j) = map of_nat [i..<j]"
  by (simp add: test_queue_fill_def test_adv_def comp_def)

section \<open>The cache\<close>

text \<open>
  C1 (uniqueness). After every sequence of \<open>on_discovery\<close> calls from the empty cache, the
  queue is a well-formed chain of blocks \<open>ns\<close> and no two of them hold the same \<open>device_id\<close>.
\<close>

theorem uniqueness_invariant:
  "\<exists>s ns. discoveries (initial_state pool0 mem0) obs = Some (Inr s) \<and> queue_nodes s ns \<and>
      distinct (live_ids s ns)"
  using reachable_state [of pool0 mem0 obs] by blast

theorem uniqueness_invariant_witness:
  "\<exists>s ns. discoveries (initial_state zero_pool zero_devices)
       [(test_adv 1 50, 10), (test_adv 2 80, 20), (test_adv 1 70, 30), (test_adv 2 60, 40)]
         = Some (Inr s) \<and>
      queue_nodes s ns \<and> distinct (live_ids s ns)"
  by (rule uniqueness_invariant)

text \<open>
  C2 (capacity). After every sequence of \<open>on_discovery\<close> calls from the empty cache,
  \<open>device_count\<close> is the number of blocks in the queue and is at most 32; when the sequence
  holds more than 32 distinct identifiers it is exactly 32.
\<close>

theorem capacity_invariant:
  "\<exists>s ns. discoveries (initial_state pool0 mem0) obs = Some (Inr s) \<and> queue_nodes s ns \<and>
      device_count s = int (length ns) \<and> length ns \<le> 32 \<and>
      (32 < card ((\<lambda>ob. device_id (fst ob)) ` set obs) \<longrightarrow> length ns = 32)"
proof -
  from reachable_state [of pool0 mem0 obs] obtain s ns
    where run: "discoveries (initial_state pool0 mem0) obs = Some (Inr s)"
      and nodes: "queue_nodes s ns"
      and ids: "live_ids s ns = lru_ids (map (\<lambda>ob. device_id (fst ob)) obs)"
      and cnt: "device_count s = int (length ns)" and len: "length ns \<le> 32"
    by blast
  have "length ns = length (live_ids s ns)"
    by (simp add: live_ids_def)
  also have "\<dots> = min 32 (card ((\<lambda>ob. device_id (fst ob)) ` set obs))"
    by (simp add: ids length_lru_ids)
  finally have "32 < card ((\<lambda>ob. device_id (fst ob)) ` set obs) \<longrightarrow> length ns = 32"
    by simp
  with run nodes cnt len show ?thesis by blast
qed

theorem capacity_invariant_witness:
  "32 < card ((\<lambda>ob. device_id (fst ob)) ` set (test_queue_fill 1 34)) \<and>
   (\<exists>s ns. discoveries (initial_state zero_pool zero_devices) (test_queue_fill 1 34) = Some (Inr s) \<and>
      queue_nodes s ns \<and> device_count s = 32 \<and> length ns = 32)"
proof -
  have "(\<lambda>ob. device_id (fst ob)) ` set (test_queue_fill 1 34) = set (map of_nat [1..<34])"
    by (simp only: test_queue_fill_ids [symmetric] set_map)
  also have "card \<dots> = 33"
    by code_simp
  finally have c: "32 < card ((\<lambda>ob. device_id (fst ob)) ` set (test_queue_fill 1 34))"
    by simp
  with capacity_invariant [of zero_pool zero_devices "test_queue_fill 1 34"] show ?thesis
    by auto
qed

text \<open>
  C3 (eviction). In every state reached from the empty cache, with live identifiers \<open>ids\<close>
  (most recent first), \<open>on_discovery\<close> of an identifier that is present moves it to the front
  and removes nothing; of an absent identifier with 32 entries live, puts it in front and drops
  exactly the last, least recently updated, identifier; of an absent identifier otherwise, puts
  it in front and removes nothing. The live identifiers are those of the eviction policy
  \<open>lru_ids\<close> run on the identifiers observed.
\<close>

theorem eviction_policy:
  "\<exists>s ns s' ns'.
      discoveries (initial_state pool0 mem0) obs = Some (Inr s) \<and> queue_nodes s ns \<and>
      live_ids s ns = lru_ids (map (\<lambda>ob. device_id (fst ob)) obs) \<and>
      on_discovery data t s = Some ([], Inr s') \<and> queue_nodes s' ns' \<and>
      live_ids s' ns' =
        (if device_id data \<in> set (live_ids s ns)
         then device_id data # remove1 (device_id data) (live_ids s ns)
         else if length ns = 32 then device_id data # butlast (live_ids s ns)
         else device_id data # live_ids s ns)"
proof -
  from reachable_cache [of pool0 mem0 obs] obtain s ns fs
    where run: "discoveries (initial_state pool0 mem0) obs = Some (Inr s)"
      and inv: "cache_inv s ns fs" and abs: "map (entry s) ns = cache_after obs"
    by blast
  from on_discovery_refines [OF inv, of data t] obtain s' ns' fs'
    where step: "on_discovery data t s = Some ([], Inr s')" and inv': "cache_inv s' ns' fs'"
      and abs': "map (entry s') ns' = record_observation data t (map (entry s) ns)"
    by blast
  have dist: "distinct (map (\<lambda>e. device_id (fst e)) (map (entry s) ns))"
    using inv by (simp add: cache_inv_def comp_def)
  have len: "length (live_ids s ns) = length ns"
    by (simp add: live_ids_def)
  have "live_ids s' ns' = lru_step (live_ids s ns) (device_id data)"
    by (simp only: live_ids_entry abs' record_observation_ids [OF dist])
  then have ids': "live_ids s' ns' =
        (if device_id data \<in> set (live_ids s ns)
         then device_id data # remove1 (device_id data) (live_ids s ns)
         else if length ns = 32 then device_id data # butlast (live_ids s ns)
         else device_id data # live_ids s ns)"
    by (simp only: lru_step_def len)
  have ids: "live_ids s ns = lru_ids (map (\<lambda>ob. device_id (fst ob)) obs)"
    by (simp only: live_ids_entry abs cache_after_ids)
  have "queue_nodes s ns" and "queue_nodes s' ns'"
    using inv inv' by (simp_all add: cache_inv_def)
  with run ids step ids' show ?thesis by blast
qed

theorem eviction_policy_witness:
  "(\<exists>s ns s' ns'.
      discoveries (initial_state zero_pool zero_devices) (test_queue_fill 1 33) = Some (Inr s) \<and>
      queue_nodes s ns \<and> live_ids s ns = rev (map of_nat [1..<33]) \<and>
      on_discovery (test_adv 33 7) 33 s = Some ([], Inr s') \<and> queue_nodes s' ns' \<and>
      live_ids s' ns' = rev (map of_nat [2..<34]) \<and>
      1 \<notin> set (live_ids s' ns') \<and> 33 \<in> set (live_ids s' ns')) \<and>
   (\<exists>s ns s' ns'.
      discoveries (initial_state zero_pool zero_devices) (test_queue_fill 1 33) = Some (Inr s) \<and>
      queue_nodes s ns \<and> live_ids s ns = rev (map of_nat [1..<33]) \<and>
      on_discovery (test_adv 5 7) 33 s = Some ([], Inr s') \<and> queue_nodes s' ns' \<and>
      live_ids s' ns' = 5 # remove1 5 (rev (map of_nat [1..<33])) \<and>
      set (live_ids s' ns') = set (live_ids s ns))"
proof (rule conjI)
  let ?init = "initial_state zero_pool zero_devices"
  let ?full = "rev (map of_nat [1..<33]) :: 32 word list"
  have ids: "lru_ids (map (\<lambda>ob. device_id (fst ob)) (test_queue_fill 1 33)) = ?full"
    unfolding test_queue_fill_ids by code_simp
  have new: "(33 :: 32 word) \<in> set ?full \<longleftrightarrow> False"
    and old: "(5 :: 32 word) \<in> set ?full \<longleftrightarrow> True"
    and evict: "(33 :: 32 word) # butlast ?full = rev (map of_nat [2..<34])"
    and gone: "(1 :: 32 word) \<notin> set (rev (map of_nat [2..<34]))"
    and there: "(33 :: 32 word) \<in> set (rev (map of_nat [2..<34]))"
    and same: "set ((5 :: 32 word) # remove1 5 ?full) = set ?full"
    and full: "length ?full = 32"
    by code_simp+
  have id33: "device_id (test_adv 33 7) = 33" and id5: "device_id (test_adv 5 7) = 5"
    by (simp_all add: test_adv_def)
  {
    fix data :: pair_adv_data_t
    from eviction_policy [of zero_pool zero_devices "test_queue_fill 1 33" data 33]
    obtain s ns s' ns'
      where run: "discoveries ?init (test_queue_fill 1 33) = Some (Inr s)"
        and nodes: "queue_nodes s ns"
        and l0: "live_ids s ns = lru_ids (map (\<lambda>ob. device_id (fst ob)) (test_queue_fill 1 33))"
        and step: "on_discovery data 33 s = Some ([], Inr s')" and nodes': "queue_nodes s' ns'"
        and l1: "live_ids s' ns' =
          (if device_id data \<in> set (live_ids s ns)
           then device_id data # remove1 (device_id data) (live_ids s ns)
           else if length ns = 32 then device_id data # butlast (live_ids s ns)
           else device_id data # live_ids s ns)"
      by blast
    have l: "live_ids s ns = ?full"
      by (simp only: l0 ids)
    have "length (live_ids s ns) = length ns"
      by (simp add: live_ids_def)
    then have len: "length ns = 32"
      by (simp only: l full)
    have "live_ids s' ns' =
          (if device_id data \<in> set ?full
           then device_id data # remove1 (device_id data) ?full
           else device_id data # butlast ?full)"
      using l1 [unfolded l len] by (simp only: simp_thms if_True)
    with run nodes l step nodes'
    have "\<exists>s ns s' ns'. discoveries ?init (test_queue_fill 1 33) = Some (Inr s) \<and>
        queue_nodes s ns \<and> live_ids s ns = ?full \<and>
        on_discovery data 33 s = Some ([], Inr s') \<and> queue_nodes s' ns' \<and>
        live_ids s' ns' =
          (if device_id data \<in> set ?full
           then device_id data # remove1 (device_id data) ?full
           else device_id data # butlast ?full)"
      by blast
  }
  note inst = this
  from inst [of "test_adv 33 7"]
  show "\<exists>s ns s' ns'. discoveries ?init (test_queue_fill 1 33) = Some (Inr s) \<and>
      queue_nodes s ns \<and> live_ids s ns = ?full \<and>
      on_discovery (test_adv 33 7) 33 s = Some ([], Inr s') \<and> queue_nodes s' ns' \<and>
      live_ids s' ns' = rev (map of_nat [2..<34]) \<and>
      1 \<notin> set (live_ids s' ns') \<and> 33 \<in> set (live_ids s' ns')"
    unfolding id33 new if_False evict using gone there by metis
  from inst [of "test_adv 5 7"]
  show "\<exists>s ns s' ns'. discoveries ?init (test_queue_fill 1 33) = Some (Inr s) \<and>
      queue_nodes s ns \<and> live_ids s ns = ?full \<and>
      on_discovery (test_adv 5 7) 33 s = Some ([], Inr s') \<and> queue_nodes s' ns' \<and>
      live_ids s' ns' = 5 # remove1 5 ?full \<and>
      set (live_ids s' ns') = set (live_ids s ns)"
    unfolding id5 old if_True using same by metis
qed

text \<open>
  C6 (merge path). In every state reached from the empty cache, when a block \<open>d\<close> of the queue
  holds the \<open>device_id\<close> of the observation, \<open>on_discovery\<close> prints nothing and returns a
  state in which the queue is \<open>d\<close> followed by the other blocks in their order, the \<open>adv\<close> of
  \<open>d\<close> differs from before in \<open>rssi\<close> alone, which is the observation's, its
  \<open>discovery_time\<close> is the time of the call, \<open>adv\<close> and \<open>discovery_time\<close> of every other
  block are as before, and the pool and \<open>device_count\<close> are as before.
\<close>

theorem merge_path_frame:
  "\<exists>s ns. discoveries (initial_state pool0 mem0) obs = Some (Inr s) \<and> queue_nodes s ns \<and>
      (\<forall>d \<in> set ns. device_id (adv (devices s d)) = device_id data \<longrightarrow>
         (\<exists>s'. on_discovery data t s = Some ([], Inr s') \<and>
            queue_nodes s' (d # remove1 d ns) \<and>
            adv (devices s' d) = (adv (devices s d))\<lparr>rssi := rssi data\<rparr> \<and>
            discovery_time (devices s' d) = t \<and>
            (\<forall>n. n \<noteq> d \<longrightarrow> adv (devices s' n) = adv (devices s n) \<and>
                  discovery_time (devices s' n) = discovery_time (devices s n)) \<and>
            device_pool s' = device_pool s \<and> device_count s' = device_count s))"
proof -
  from reachable_cache [of pool0 mem0 obs] obtain s ns fs
    where run: "discoveries (initial_state pool0 mem0) obs = Some (Inr s)"
      and inv: "cache_inv s ns fs"
    by blast
  then have nodes: "queue_nodes s ns"
    and ids: "distinct (map (\<lambda>n. device_id (fst (entry s n))) ns)"
    by (simp_all add: cache_inv_def)
  have "\<exists>s'. on_discovery data t s = Some ([], Inr s') \<and>
            queue_nodes s' (d # remove1 d ns) \<and>
            adv (devices s' d) = (adv (devices s d))\<lparr>rssi := rssi data\<rparr> \<and>
            discovery_time (devices s' d) = t \<and>
            (\<forall>n. n \<noteq> d \<longrightarrow> adv (devices s' n) = adv (devices s n) \<and>
                  discovery_time (devices s' n) = discovery_time (devices s n)) \<and>
            device_pool s' = device_pool s \<and> device_count s' = device_count s"
    if d: "d \<in> set ns" and same: "device_id (adv (devices s d)) = device_id data" for d
  proof -
    let ?s' = "merged d data t s"
    have "find (\<lambda>n. device_id (fst (entry s n)) = device_id data) ns = Some d"
      using ids d same by (intro find_unique) (simp_all add: entry_def)
    then have "on_discovery data t s = Some ([], Inr ?s')"
      using find_duplicate_nodes [OF nodes, of data] by (simp add: on_discovery_found)
    moreover have "queue_nodes ?s' (d # remove1 d ns)"
      by (rule queue_nodes_merged [OF nodes d])
    moreover have e: "(adv (devices ?s' n), discovery_time (devices ?s' n)) =
        (if n = d then ((adv (devices s d))\<lparr>rssi := rssi data\<rparr>, t)
         else (adv (devices s n), discovery_time (devices s n)))" for n
      using entry_merged [of d data t s, THEN fun_cong, of n] by (simp add: entry_def)
    have "adv (devices ?s' d) = (adv (devices s d))\<lparr>rssi := rssi data\<rparr>"
      "discovery_time (devices ?s' d) = t"
      using e [of d] by simp_all
    moreover have "\<forall>n. n \<noteq> d \<longrightarrow> adv (devices ?s' n) = adv (devices s n) \<and>
        discovery_time (devices ?s' n) = discovery_time (devices s n)"
      using e by (metis prod.inject)
    moreover have "device_pool ?s' = device_pool s" "device_count ?s' = device_count s"
      by (simp_all add: merged_def obs_set_rssi obs_set_discovery_time frame_queue_push
            frame_queue_remove)
    ultimately show ?thesis by blast
  qed
  with run nodes show ?thesis by blast
qed

theorem merge_path_frame_witness:
  "\<exists>s ns d s'.
      discoveries (initial_state zero_pool zero_devices)
        [(test_adv 1 50, 100), (test_adv 2 80, 200)] = Some (Inr s) \<and>
      queue_nodes s ns \<and> d \<in> set ns \<and> adv (devices s d) = test_adv 1 50 \<and>
      discovery_time (devices s d) = 100 \<and>
      on_discovery (test_adv 1 70) 300 s = Some ([], Inr s') \<and>
      queue_nodes s' (d # remove1 d ns) \<and> length (d # remove1 d ns) = 2 \<and>
      adv (devices s' d) = test_adv 1 70 \<and> discovery_time (devices s' d) = 300 \<and>
      device_pool s' = device_pool s \<and> device_count s' = device_count s"
proof -
  let ?obs = "[(test_adv 1 50, 100), (test_adv 2 80, 200 :: 64 word)]"
  from merge_path_frame [of zero_pool zero_devices ?obs "test_adv 1 70" 300] obtain s ns
    where run: "discoveries (initial_state zero_pool zero_devices) ?obs = Some (Inr s)"
      and nodes: "queue_nodes s ns"
      and frame: "\<And>d. d \<in> set ns \<Longrightarrow>
          device_id (adv (devices s d)) = device_id (test_adv 1 70) \<Longrightarrow>
          \<exists>s'. on_discovery (test_adv 1 70) 300 s = Some ([], Inr s') \<and>
            queue_nodes s' (d # remove1 d ns) \<and>
            adv (devices s' d) = (adv (devices s d))\<lparr>rssi := rssi (test_adv 1 70)\<rparr> \<and>
            discovery_time (devices s' d) = 300 \<and>
            (\<forall>n. n \<noteq> d \<longrightarrow> adv (devices s' n) = adv (devices s n) \<and>
                  discovery_time (devices s' n) = discovery_time (devices s n)) \<and>
            device_pool s' = device_pool s \<and> device_count s' = device_count s"
    by blast
  from reachable_state [of zero_pool zero_devices ?obs] run obtain ms
    where "queue_nodes s ms" and abs: "map (entry s) ms = cache_after ?obs"
    by auto
  with nodes have abs: "map (entry s) ns = cache_after ?obs"
    by (simp add: queue_nodes_unique [of s ns ms])
  have ca: "cache_after ?obs = [(test_adv 2 80, 200), (test_adv 1 50, 100)]"
    by (simp add: cache_after_def record_observation_def test_adv_def)
  from abs [unfolded ca] obtain e d where ns: "ns = [e, d]"
    and d: "adv (devices s d) = test_adv 1 50" "discovery_time (devices s d) = 100"
    by (auto simp: entry_def)
  have len: "length (d # remove1 d ns) = 2"
    by (simp add: ns)
  have "d \<in> set ns" by (simp add: ns)
  moreover have "device_id (adv (devices s d)) = device_id (test_adv 1 70)"
    by (simp add: d test_adv_def)
  ultimately obtain s' where "on_discovery (test_adv 1 70) 300 s = Some ([], Inr s')"
    and "queue_nodes s' (d # remove1 d ns)"
    and "adv (devices s' d) = (adv (devices s d))\<lparr>rssi := rssi (test_adv 1 70)\<rparr>"
    and "discovery_time (devices s' d) = 300"
    and "device_pool s' = device_pool s" and "device_count s' = device_count s"
    using frame [of d] by blast
  moreover have "(adv (devices s d))\<lparr>rssi := rssi (test_adv 1 70)\<rparr> = test_adv 1 70"
    by (simp add: d test_adv_def)
  ultimately show ?thesis
    using run nodes \<open>d \<in> set ns\<close> d len by (metis (no_types, lifting))
qed

text \<open>
  C7 (recency order). In every state reached from the empty cache \<open>print_queue_by_time\<close>,
  which reads the state and writes nothing but its output, prints after its heading the
  entries of the cache from the most to the least recently updated.
\<close>

theorem recency_ordering:
  "\<exists>s. discoveries (initial_state pool0 mem0) obs = Some (Inr s) \<and>
      print_queue_by_time s = Some (TimeHeading # map row_of (cache_after obs))"
  using reachable_state [of pool0 mem0 obs] by (auto simp: print_queue_by_time_nodes)

theorem recency_ordering_witness:
  "(\<exists>s. discoveries (initial_state zero_pool zero_devices)
          [(test_adv 1 10, 100), (test_adv 2 20, 200), (test_adv 3 30, 300)] = Some (Inr s) \<and>
        print_queue_by_time s
          = Some [TimeHeading, Row 300 3 30, Row 200 2 20, Row 100 1 10]) \<and>
   (\<exists>s. discoveries (initial_state zero_pool zero_devices)
          [(test_adv 1 10, 100), (test_adv 2 20, 200), (test_adv 3 30, 300), (test_adv 1 40, 400)]
            = Some (Inr s) \<and>
        print_queue_by_time s
          = Some [TimeHeading, Row 400 1 40, Row 300 3 30, Row 200 2 20])"
  using recency_ordering [of zero_pool zero_devices
          "[(test_adv 1 10, 100), (test_adv 2 20, 200), (test_adv 3 30, 300)]"]
        recency_ordering [of zero_pool zero_devices
          "[(test_adv 1 10, 100), (test_adv 2 20, 200), (test_adv 3 30, 300), (test_adv 1 40, 400)]"]
  by (simp add: cache_after_def record_observation_def row_of_def test_adv_def)

text \<open>
  C4 (signal-strength order). In every state reached from the empty cache, the rows that
  \<open>print_queue_by_rssi\<close> prints after its heading are the entries \<open>out\<close> of the cache in the
  order of \<open>snapshot_by_signal_strength\<close>: a permutation of the recency-ordered entries, by
  descending \<open>rssi\<close>, in which the entries of any one \<open>rssi\<close> keep their recency order (most
  recent first). The second component is the fault that ends the printing loop when fewer
  than 32 entries are live, the subject of C5.
\<close>

theorem signal_strength_ordering:
  "\<exists>s out. discoveries (initial_state pool0 mem0) obs = Some (Inr s) \<and>
      print_queue_by_rssi s
        = Some (RssiHeading # map row_of out,
                if length (cache_after obs) < 32 then Some NullDeref else None) \<and>
      out = snapshot_by_signal_strength (cache_after obs) \<and>
      mset out = mset (cache_after obs) \<and>
      sorted_wrt (\<lambda>a b. rssi (fst b) \<le> rssi (fst a)) out \<and>
      (\<forall>k. filter (\<lambda>e. rssi (fst e) = k) out = filter (\<lambda>e. rssi (fst e) = k) (cache_after obs))"
proof -
  from reachable_state [of pool0 mem0 obs] obtain s ns
    where run: "discoveries (initial_state pool0 mem0) obs = Some (Inr s)"
      and nodes: "queue_nodes s ns" and abs: "map (entry s) ns = cache_after obs"
      and len: "length ns \<le> 32"
    by blast
  have "length (cache_after obs) = length ns"
    by (simp add: abs [symmetric])
  with print_queue_by_rssi_nodes [OF nodes len] run abs show ?thesis
    by (simp add: snapshot_by_signal_strength_stable)
qed

theorem signal_strength_ordering_witness:
  "\<exists>s fl. discoveries (initial_state zero_pool zero_devices)
         [(test_adv 1 50, 100), (test_adv 2 80, 200), (test_adv 3 80, 300), (test_adv 4 30, 400)]
           = Some (Inr s) \<and>
      print_queue_by_time s
        = Some [TimeHeading, Row 400 4 30, Row 300 3 80, Row 200 2 80, Row 100 1 50] \<and>
      print_queue_by_rssi s
        = Some ([RssiHeading, Row 300 3 80, Row 200 2 80, Row 100 1 50, Row 400 4 30], fl)"
proof -
  let ?obs = "[(test_adv 1 50, 100), (test_adv 2 80, 200), (test_adv 3 80, 300),
               (test_adv 4 30, 400 :: 64 word)]"
  have ca: "cache_after ?obs = [(test_adv 4 30, 400), (test_adv 3 80, 300), (test_adv 2 80, 200),
               (test_adv 1 50, 100)]"
    by (simp add: cache_after_def record_observation_def test_adv_def)
  have sn: "snapshot_by_signal_strength (cache_after ?obs)
      = [(test_adv 3 80, 300), (test_adv 2 80, 200), (test_adv 1 50, 100), (test_adv 4 30, 400)]"
    unfolding ca by (simp add: snapshot_by_signal_strength_def test_adv_def)
  from signal_strength_ordering [of zero_pool zero_devices ?obs] obtain s
    where run: "discoveries (initial_state zero_pool zero_devices) ?obs = Some (Inr s)"
      and pr: "print_queue_by_rssi s
        = Some (RssiHeading # map row_of (snapshot_by_signal_strength (cache_after ?obs)),
                if length (cache_after ?obs) < 32 then Some NullDeref else None)"
    by blast
  from reachable_state [of zero_pool zero_devices ?obs] run obtain ns
    where nodes: "queue_nodes s ns" and abs: "map (entry s) ns = cache_after ?obs"
    by auto
  have "print_queue_by_time s = Some (TimeHeading # map row_of (cache_after ?obs))"
    unfolding print_queue_by_time_nodes [OF nodes] abs ..
  then have "print_queue_by_time s
      = Some [TimeHeading, Row 400 4 30, Row 300 3 80, Row 200 2 80, Row 100 1 50]"
    unfolding ca by (simp add: row_of_def test_adv_def)
  moreover from pr have "print_queue_by_rssi s
      = Some ([RssiHeading, Row 300 3 80, Row 200 2 80, Row 100 1 50, Row 400 4 30],
              Some NullDeref)"
    unfolding sn unfolding ca by (simp add: row_of_def test_adv_def)
  ultimately show ?thesis
    using run by blast
qed

text \<open>
  C5 (snapshot below capacity). With one entry in the cache \<open>print_queue_by_rssi\<close> prints the
  heading and the row of that entry, and its printing loop, which runs over all 32 slots of
  \<open>sorted\<close>, then reads through the \<open>NULL\<close> in slot 1.
\<close>

theorem print_queue_by_rssi_null_deref:
  "\<exists>s. discoveries (initial_state pool0 mem0) [(data, t)] = Some (Inr s) \<and>
      print_queue_by_rssi s
        = Some ([RssiHeading, Row t (device_id data) (rssi data)], Some NullDeref)"
proof -
  from reachable_state [of pool0 mem0 "[(data, t)]"] obtain s ns
    where run: "discoveries (initial_state pool0 mem0) [(data, t)] = Some (Inr s)"
      and nodes: "queue_nodes s ns" and abs: "map (entry s) ns = cache_after [(data, t)]"
      and len: "length ns \<le> 32"
    by blast
  have ca: "cache_after [(data, t)] = [(data, t)]"
    by (simp add: cache_after_def record_observation_def)
  from abs have "length ns = 1"
    unfolding ca by auto
  with print_queue_by_rssi_nodes [OF nodes len] have
    "print_queue_by_rssi s
       = Some ([RssiHeading, Row t (device_id data) (rssi data)], Some NullDeref)"
    unfolding abs ca by (simp add: snapshot_by_signal_strength_def row_of_def)
  with run show ?thesis by blast
qed

lemma print_queue_by_rssi_below_capacity:
  "\<exists>s ns out. discoveries (initial_state pool0 mem0) obs = Some (Inr s) \<and> queue_nodes s ns \<and>
      print_queue_by_rssi s = Some (out, if length ns < 32 then Some NullDeref else None)"
proof -
  from reachable_state [of pool0 mem0 obs] obtain s ns
    where "discoveries (initial_state pool0 mem0) obs = Some (Inr s)"
      and "queue_nodes s ns" and "length ns \<le> 32"
    by blast
  then show ?thesis
    using print_queue_by_rssi_nodes [of s ns] by blast
qed

section \<open>The allocator\<close>

text \<open>
  C8 (allocator round-trip). For a pool initialised with capacity \<open>N\<close>, the \<open>N\<close> successive
  calls of \<open>pool_alloc\<close> all return a block (the blocks \<open>0, \<dots>, N - 1\<close>, in memory order), the
  next call returns \<open>NULL\<close>, and after \<open>pool_free\<close> of any one of the allocated blocks, which
  prints no warning, \<open>pool_alloc\<close> returns a block again. The loop counter of \<open>pool_init\<close> is an
  \<open>int\<close>, so the capacity is at most \<open>2^31\<close>; the arena \<open>device_pool\<close> has room for 32
  blocks.
\<close>

theorem allocator_round_trip:
  assumes "unat N \<le> 2 ^ 31"
  shows "let (ps, pool) = pool_alloc_n (unat N) (pool_init pool0 bsize N) sz
         in ps = map Some [0..<unat N] \<and>
            fst (pool_alloc pool sz) = None \<and>
            (\<forall>b < unat N. fst (pool_free pool (Some b)) = [] \<and>
                  fst (pool_alloc (snd (pool_free pool (Some b))) sz) = Some b)"
proof -
  let ?r = "pool_alloc_n (unat N) (pool_init pool0 bsize N) sz"
  from pool_alloc_n_free_blocks [OF free_blocks_pool_init [OF assms], of pool0 bsize sz]
  have ps: "fst ?r = map Some [0..<unat N]" and top: "nextfree (snd ?r) = None"
    and hdr: "\<forall>b \<in> set [0..<unat N]. blocks (snd ?r) b = None"
    by simp_all
  have "fst (pool_alloc (snd ?r) sz) = None"
    using top by (simp add: pool_alloc_def)
  moreover have "fst (pool_free (snd ?r) (Some b)) = [] \<and>
      fst (pool_alloc (snd (pool_free (snd ?r) (Some b))) sz) = Some b" if "b < unat N" for b
    using hdr that by (simp add: pool_free_def pool_alloc_def)
  ultimately show ?thesis
    using ps by (simp add: split_beta)
qed

theorem allocator_round_trip_witness:
  "unat (32 :: 32 word) \<le> 2 ^ 31 \<and>
   (let (ps, pool) = pool_alloc_n (unat (32 :: 32 word)) (pool_init zero_pool sizeof_device_t 32)
                       sizeof_device_t
    in ps = map Some [0..<unat (32 :: 32 word)] \<and>
       fst (pool_alloc pool sizeof_device_t) = None \<and>
       (\<forall>b < unat (32 :: 32 word). fst (pool_free pool (Some b)) = [] \<and>
             fst (pool_alloc (snd (pool_free pool (Some b))) sizeof_device_t) = Some b))"
proof -
  have h: "unat (32 :: 32 word) \<le> 2 ^ 31" by simp
  from allocator_round_trip [OF h, of zero_pool sizeof_device_t sizeof_device_t] h
  show ?thesis by (rule_tac conjI)
qed

lemma no_path_from_self_loop: "h b = Some b \<Longrightarrow> \<not> path h (Some b) fs None"
  by (induction fs) auto

text \<open>
  C9 (double release). With the pool of \<open>test_pool\<close> (four blocks, all allocated),
  \<open>pool_free\<close> of the first block twice in a row prints no warning either time: the block was
  pushed on an empty stack, so its \<open>nextfree\<close> is \<open>NULL\<close>, which is what the test of
  \<open>pool_free\<close> takes for "allocated". The second call makes the block its own successor: no
  list of blocks is the free list any more, and the next two calls of \<open>pool_alloc\<close> return
  the same block.
\<close>

theorem double_release_undetected:
  "let pool = pool_init pool0 bsize 4;
       (ps, pool) = pool_alloc_n 4 pool sz;
       (w1, pool) = pool_free pool (ps ! 0);
       (w2, pool) = pool_free pool (ps ! 0);
       (p5, pool5) = pool_alloc pool sz;
       (p6, pool6) = pool_alloc pool5 sz
   in ps = [Some 0, Some 1, Some 2, Some 3] \<and> w1 = [] \<and> w2 = [] \<and>
      nextfree pool = Some 0 \<and> blocks pool 0 = Some 0 \<and> (\<nexists>fs. free_blocks pool fs) \<and>
      p5 = Some 0 \<and> p6 = Some 0"
  by (simp add: pool_init_def pool_init_loop.simps pool_alloc_def pool_free_def
        eval_nat_numeral free_blocks_def no_path_from_self_loop)

text \<open>
  When the block released twice is not at the bottom of the stack, the warning is printed, and
  the block is pushed all the same: it becomes its own successor and the blocks below it are
  lost.
\<close>

lemma double_release_warned_and_pushed:
  "let pool = pool_init pool0 bsize 4;
       (ps, pool) = pool_alloc_n 4 pool sz;
       (w1, pool) = pool_free pool (ps ! 0);
       (w2, pool) = pool_free pool (ps ! 1);
       (w3, pool) = pool_free pool (ps ! 1)
   in w1 = [] \<and> w2 = [] \<and> w3 = [DoubleFreeWarning 1 (Some 0)] \<and>
      nextfree pool = Some 1 \<and> blocks pool 1 = Some 1 \<and> (\<nexists>fs. free_blocks pool fs)"
  by (simp add: pool_init_def pool_init_loop.simps pool_alloc_def pool_free_def
        eval_nat_numeral free_blocks_def no_path_from_self_loop)

text \<open>
  C10 (release of \<open>NULL\<close>). \<open>pool_free\<close> with a \<open>NULL\<close> pointer prints the warning and
  returns the pool as it was.
\<close>

theorem pool_free_null: "pool_free pool None = ([NullFreeWarning], pool)"
  by (simp add: pool_free_def)

end
